theory Spec2Isabelle
  imports Main
begin

section \<open>Python values used by rockpaperscissors.py\<close>

text \<open>
  A Python \<open>bytes\<close> value is a list of bytes; every byte string of the program is ASCII,
  so \<open>bytes(s, 'UTF-8')\<close> and \<open>str(b, 'UTF-8')\<close> leave the characters as they are.
\<close>

type_synonym bytes = string

datatype py_error = ValueError | IndexError

text \<open>\<open>t.index(x)\<close>: the position of the first occurrence, \<open>ValueError\<close> when there is none.\<close>

fun index_from :: "nat \<Rightarrow> 'a list \<Rightarrow> 'a \<Rightarrow> py_error + nat" where
  "index_from k [] x = Inl ValueError"
| "index_from k (y # ys) x = (if y = x then Inr k else index_from (Suc k) ys x)"

definition py_index :: "'a list \<Rightarrow> 'a \<Rightarrow> py_error + nat" where
  "py_index xs x = index_from 0 xs x"

text \<open>\<open>xs[i]\<close>: a negative index counts from the end, \<open>IndexError\<close> out of range.\<close>

definition py_get :: "'a list \<Rightarrow> int \<Rightarrow> py_error + 'a" where
  "py_get xs i =
     (if 0 \<le> i \<and> i < int (length xs) then Inr (xs ! nat i)
      else if i < 0 \<and> - int (length xs) \<le> i then Inr (xs ! nat (int (length xs) + i))
      else Inl IndexError)"

text \<open>\<open>str(n)\<close> of a Python int: its decimal digits, with a minus sign below zero.\<close>

definition digit_char :: "nat \<Rightarrow> char" where
  "digit_char d = ''0123456789'' ! (d mod 10)"

fun dec_digits :: "nat \<Rightarrow> string" where
  "dec_digits n = (if n < 10 then [digit_char n] else dec_digits (n div 10) @ [digit_char (n mod 10)])"

definition py_str :: "int \<Rightarrow> string" where
  "py_str n = (if n < 0 then CHR ''-'' # dec_digits (nat (- n)) else dec_digits (nat n))"

section \<open>Effects on the device\<close>

datatype face = ASLEEP | HAPPY | SAD

text \<open>
  What the program does to the radio and the display, in the order it does it.
  \<open>ShowFlash s times\<close> is \<open>display.show([screen_off, s] * times)\<close>.
\<close>

datatype effect =
    RadioConfig int int
  | RadioOn
  | RadioSend bytes
  | Sleep int
  | ShowStr string
  | ShowFace face
  | ShowFlash string int
  | ShowScreenOff
  | ShowClocks
  | Scroll string
  | Clear
  | Reset

section \<open>Global constants\<close>

definition RPS :: "bytes list" where
  "RPS = [''R'', ''P'', ''S'']"

definition MYID :: bytes where
  "MYID = ''2f''"

section \<open>resolve\<close>

text \<open>
  \<open>diff = RPS.index(my) - RPS.index(opp)\<close>, then three lookups by \<open>diff\<close>, the picture and
  a pause. The result is the pair \<open>(result, opp_score)\<close> with the effects on the display.
\<close>

definition faces :: "face list" where
  "faces = [ASLEEP, HAPPY, SAD]"

definition resolve :: "bytes \<Rightarrow> bytes \<Rightarrow> py_error + (effect list \<times> int \<times> int)" where
  "resolve my opp =
     (case py_index RPS my of Inl e \<Rightarrow> Inl e | Inr i \<Rightarrow>
      case py_index RPS opp of Inl e \<Rightarrow> Inl e | Inr j \<Rightarrow>
      let diff = int i - int j in
      case py_get [0, 1, 0] diff of Inl e \<Rightarrow> Inl e | Inr result \<Rightarrow>
      case py_get [0, 0, 1] diff of Inl e \<Rightarrow> Inl e | Inr opp_score \<Rightarrow>
      case py_get faces diff of Inl e \<Rightarrow> Inl e | Inr f \<Rightarrow>
      Inr ([ShowFace f, Sleep 1000], result, opp_score))"

section \<open>create_address\<close>

text \<open>
  \<open>int(s, 16)\<close> on a string of hexadecimal digits, either case. Python's \<open>int\<close> also reads
  a sign, surrounding blanks, a \<open>0x\<close> prefix and underscores; no identifier the program
  builds has them, and this model answers \<open>ValueError\<close> for every string that is not made
  of hexadecimal digits only.
\<close>

definition hex_digit :: "char \<Rightarrow> nat option" where
  "hex_digit c =
     (case py_index ''0123456789abcdef'' c of Inr d \<Rightarrow> Some d
      | Inl _ \<Rightarrow> (case py_index ''ABCDEF'' c of Inr d \<Rightarrow> Some (10 + d) | Inl _ \<Rightarrow> None))"

fun hex_value :: "int \<Rightarrow> string \<Rightarrow> int option" where
  "hex_value acc [] = Some acc"
| "hex_value acc (c # cs) =
     (case hex_digit c of None \<Rightarrow> None | Some d \<Rightarrow> hex_value (16 * acc + int d) cs)"

definition py_int16 :: "string \<Rightarrow> py_error + int" where
  "py_int16 s =
     (if s = [] then Inl ValueError
      else case hex_value 0 s of None \<Rightarrow> Inl ValueError | Some v \<Rightarrow> Inr v)"

definition create_address :: "bytes \<Rightarrow> bytes \<Rightarrow> py_error + bytes" where
  "create_address player_id opp_id =
     (let player_s = player_id; opp_s = opp_id in
      case py_int16 player_s of Inl e \<Rightarrow> Inl e | Inr p \<Rightarrow>
      case py_int16 opp_s of Inl e \<Rightarrow> Inl e | Inr q \<Rightarrow>
      Inr (if p > q then opp_s @ player_s else player_s @ opp_s))"

section \<open>choose_opponent and choose_play\<close>

text \<open>
  Both loops poll the two buttons once per pass. A pass sees the pair
  \<open>(button_a.was_pressed(), button_b.was_pressed())\<close>; the list holds the passes observed so
  far. While the list does not yet hold the confirming press the loop has not returned, and
  the result is \<open>None\<close> with the effects up to there.
\<close>

text \<open>\<open>hex(n)[-1]\<close>: the last hexadecimal digit of \<open>n\<close>.\<close>

definition hex_last :: "nat \<Rightarrow> char" where
  "hex_last n = ''0123456789abcdef'' ! (n mod 16)"

fun choose_opponent_loop ::
  "nat list \<Rightarrow> nat \<Rightarrow> (bool \<times> bool) list \<Rightarrow> effect list \<Rightarrow> nat list option \<times> effect list" where
  "choose_opponent_loop num idx [] tr = (if idx < length num then (None, tr) else (Some num, tr))"
| "choose_opponent_loop num idx ((a, b) # rest) tr =
     (if idx < length num then
        (let tr1 = tr @ [Sleep 100, ShowStr [hex_last (num ! idx)]];
             num1 = (if a then num[idx := (num ! idx + 1) mod 16] else num)
         in if b then choose_opponent_loop num1 (idx + 1) rest (tr1 @ [ShowStr ''X''])
            else choose_opponent_loop num1 idx rest tr1)
      else (Some num, tr))"

definition choose_opponent :: "(bool \<times> bool) list \<Rightarrow> bytes option \<times> effect list" where
  "choose_opponent bs =
     (case choose_opponent_loop [0, 0] 0 bs [] of
        (None, tr) \<Rightarrow> (None, tr)
      | (Some num, tr) \<Rightarrow> (Some (map hex_last num), tr @ [Clear]))"

fun choose_play_loop ::
  "int \<Rightarrow> string \<Rightarrow> (bool \<times> bool) list \<Rightarrow> effect list \<Rightarrow> bytes option \<times> effect list" where
  "choose_play_loop num play [] tr = (None, tr)"
| "choose_play_loop num play ((a, b) # rest) tr =
     (let tr0 = tr @ [Sleep 100];
          selection = (num + 1) mod 3;
          num1 = (if a then num + 1 else num);
          play1 = (if a then (if selection = 2 then ''R'' else if selection = 0 then ''P'' else ''S'')
                   else play);
          tr1 = (if a then tr0 @ [ShowStr play1] else tr0)
      in if b then
           (Some play1,
            tr1 @ [Clear, Sleep 300, ShowStr play1, Sleep 300,
                   Clear, Sleep 300, ShowStr play1, Sleep 300, Clear])
         else choose_play_loop num1 play1 rest tr1)"

definition choose_play :: "(bool \<times> bool) list \<Rightarrow> bytes option \<times> effect list" where
  "choose_play bs = choose_play_loop 1 [] bs []"

section \<open>The two frames\<close>

text \<open>
  \<open>send_choice\<close> returns \<open>utime.ticks_ms()\<close>, read after the frame has gone out; the reading
  is the argument \<open>t\<close>.
\<close>

definition send_choice :: "bytes \<Rightarrow> int \<Rightarrow> int \<Rightarrow> effect list \<times> int" where
  "send_choice play round_number t = ([RadioSend (play @ py_str round_number)], t)"

definition send_acknowledgement :: "int \<Rightarrow> effect list" where
  "send_acknowledgement round_number = [RadioSend (''X'' @ py_str round_number)]"

text \<open>
  \<open>parse_message\<close>: \<open>received\<close> is what \<open>radio.receive_bytes()\<close> gave, \<open>None\<close> when nothing
  was waiting. \<open>message[1:2]\<close> is \<open>take 1 (drop 1 message)\<close> and \<open>message[0:1]\<close> is
  \<open>take 1 message\<close>.
\<close>

definition parse_message :: "int \<Rightarrow> bytes option \<Rightarrow> bytes option \<times> effect list" where
  "parse_message round_number received =
     (case received of
        None \<Rightarrow> (None, [])
      | Some message \<Rightarrow>
          if length message \<noteq> 2 \<or> take 1 (drop 1 message) \<noteq> py_str round_number then (None, [])
          else if take 1 message \<in> set RPS then (Some message, send_acknowledgement round_number)
          else if take 1 message = ''X'' then (Some message, [])
          else (None, []))"

section \<open>display_score\<close>

text \<open>
  Each of the five announcing loops runs \<open>microbit.reset()\<close> in its first pass, so
  with \<open>times\<close> (here \<open>ntimes\<close>) above zero the device restarts after one scroll, and
  with it at most zero the loop body never runs. The second component is the text scrolled before the restart,
  \<open>None\<close> when the function returns.
\<close>

definition announce :: "string \<Rightarrow> int \<Rightarrow> effect list \<times> string option" where
  "announce msg ntimes =
     (if 0 < ntimes then ([Scroll msg, ShowScreenOff, Sleep 333, Reset], Some msg) else ([], None))"

definition display_score :: "int \<Rightarrow> int \<Rightarrow> int \<Rightarrow> int \<Rightarrow> effect list \<times> string option" where
  "display_score my_score opp_score round_number ntimes =
     (let (fx, ended) =
        (if round_number = 2 then
           (if my_score = 2 then announce ''You win!!'' ntimes
            else if opp_score = 2 then announce ''You Lose!'' ntimes
            else ([], None))
         else if round_number = 3 then
           (if my_score > opp_score then announce ''You win!!'' ntimes
            else if opp_score > my_score then announce ''You Lose!'' ntimes
            else if opp_score = my_score then announce ''You drew!'' ntimes
            else ([], None))
         else ([], None))
      in (ShowFlash (py_str my_score) ntimes # fx, ended))"

section \<open>main\<close>

text \<open>
  The variables of \<open>main\<close> that live across the passes of its loops, with the effects so
  far.
\<close>

record game =
  your_score :: int
  opp_score :: int
  round_number :: int
  choice :: bytes
  send_time :: int
  acknowledged :: bool
  resolved :: bool
  trace :: "effect list"

text \<open>
  One pass of the inner loop observes: what \<open>radio.receive_bytes()\<close> gives inside
  \<open>parse_message\<close>, the clock when the resend check reads it, and the clock when a resend
  has gone out (read only if there is one).
\<close>

record poll =
  received :: "bytes option"
  current_time :: int
  resend_time :: int

text \<open>
  \<open>Next\<close>: the code ran to its end. \<open>Waiting\<close>: the observations given are used up and the
  loop is still polling. \<open>Halted msg\<close>: \<open>microbit.reset()\<close> ran after scrolling \<open>msg\<close>.
  \<open>Raised\<close>: an exception left \<open>main\<close>.
\<close>

datatype outcome = Next game | Waiting game | Halted string game | Raised py_error game

text \<open>Lines 354 to 371, the \<open>if message:\<close> block.\<close>

definition process_message :: "game \<Rightarrow> bytes option \<Rightarrow> outcome" where
  "process_message g message =
     (case message of
        None \<Rightarrow> Next g
      | Some m \<Rightarrow>
          if m = [] then Next g
          else
            (let action = take 1 m in
             if action \<in> set RPS \<and> resolved g = False then
               (case resolve (choice g) (take 1 m) of
                  Inl e \<Rightarrow> Raised e g
                | Inr (fx, my_result, opp_result) \<Rightarrow>
                    (let g1 = g\<lparr>resolved := True,
                                your_score := your_score g + my_result,
                                opp_score := opp_score g + opp_result,
                                trace := trace g @ fx\<rparr>;
                         (fx2, ended) =
                            display_score (your_score g1) (opp_score g1) (round_number g1) 3;
                         g2 = g1\<lparr>trace := trace g1 @ fx2\<rparr>
                     in case ended of Some msg \<Rightarrow> Halted msg g2 | None \<Rightarrow> Next g2))
             else if action = ''X'' \<and> acknowledged g = False then Next (g\<lparr>acknowledged := True\<rparr>)
             else Next g))"

text \<open>
  Lines 373 to 377. \<open>utime.ticks_diff\<close> belongs to the firmware, not to this program: it is
  the parameter \<open>ticks_diff\<close>, and every statement below holds whatever it computes.
\<close>

definition resend_if_due :: "(int \<Rightarrow> int \<Rightarrow> int) \<Rightarrow> game \<Rightarrow> poll \<Rightarrow> game" where
  "resend_if_due ticks_diff g p =
     (if acknowledged g = False then
        (if ticks_diff (current_time p) (send_time g) > 2000 then
           (let (fx, t) = send_choice (choice g) (round_number g) (resend_time p)
            in g\<lparr>send_time := t, trace := trace g @ fx\<rparr>)
         else g)
      else g)"

text \<open>One pass of \<open>while not (acknowledged and resolved)\<close>, lines 350 to 377.\<close>

definition round_body :: "(int \<Rightarrow> int \<Rightarrow> int) \<Rightarrow> game \<Rightarrow> poll \<Rightarrow> outcome" where
  "round_body ticks_diff g p =
     (let (message, fx) = parse_message (round_number g) (received p);
          g0 = g\<lparr>trace := trace g @ fx\<rparr>
      in case process_message g0 message of
           Next g1 \<Rightarrow> Next (resend_if_due ticks_diff g1 p)
         | other \<Rightarrow> other)"

fun round_loop :: "(int \<Rightarrow> int \<Rightarrow> int) \<Rightarrow> game \<Rightarrow> poll list \<Rightarrow> outcome" where
  "round_loop ticks_diff g [] = (if acknowledged g \<and> resolved g then Next g else Waiting g)"
| "round_loop ticks_diff g (p # ps) =
     (if acknowledged g \<and> resolved g then Next g
      else case round_body ticks_diff g p of
             Next g1 \<Rightarrow> round_loop ticks_diff g1 ps
           | other \<Rightarrow> other)"

text \<open>
  What one pass of the outer loop observes: the button polls of \<open>choose_play\<close>, the clock
  when the first frame has gone out, and the passes of the inner loop. Observations past the
  end of a loop are not read.
\<close>

record round_env =
  presses :: "(bool \<times> bool) list"
  sent_time :: int
  polls :: "poll list"

text \<open>One pass of \<open>while True\<close>, lines 337 to 380.\<close>

definition play_round :: "(int \<Rightarrow> int \<Rightarrow> int) \<Rightarrow> game \<Rightarrow> round_env \<Rightarrow> outcome" where
  "play_round ticks_diff g env =
     (let tr0 = trace g @ [Scroll (''Round: '' @ py_str (round_number g)),
                           Scroll (''Your Score: '' @ py_str (your_score g))]
      in case choose_play (presses env) of
           (None, fx) \<Rightarrow> Waiting (g\<lparr>trace := tr0 @ fx\<rparr>)
         | (Some c, fx) \<Rightarrow>
             (let (fx2, t) = send_choice c (round_number g) (sent_time env);
                  g1 = g\<lparr>choice := c, send_time := t, acknowledged := False, resolved := False,
                          trace := tr0 @ fx @ fx2 @ [ShowClocks]\<rparr>
              in case round_loop ticks_diff g1 (polls env) of
                   Next g2 \<Rightarrow> Next (g2\<lparr>round_number := round_number g2 + 1\<rparr>)
                 | other \<Rightarrow> other))"

fun main_loop :: "(int \<Rightarrow> int \<Rightarrow> int) \<Rightarrow> game \<Rightarrow> round_env list \<Rightarrow> outcome" where
  "main_loop ticks_diff g [] = Waiting g"
| "main_loop ticks_diff g (env # envs) =
     (case play_round ticks_diff g env of
        Next g1 \<Rightarrow> main_loop ticks_diff g1 envs
      | other \<Rightarrow> other)"

text \<open>\<open>int.from_bytes(b, 'little')\<close>.\<close>

fun from_bytes_little :: "bytes \<Rightarrow> int" where
  "from_bytes_little [] = 0"
| "from_bytes_little (c # cs) = of_char c + 256 * from_bytes_little cs"

definition start :: "effect list \<Rightarrow> game" where
  "start tr = \<lparr>your_score = 0, opp_score = 0, round_number = 1, choice = [], send_time = 0,
               acknowledged = False, resolved = False, trace = tr\<rparr>"

text \<open>
  \<open>main\<close>, lines 320 to 380. \<open>choice\<close>, \<open>send_time\<close>, \<open>acknowledged\<close> and \<open>resolved\<close> are
  assigned in every round before they are read; \<open>start\<close> only fills their fields.
\<close>

definition main :: "(int \<Rightarrow> int \<Rightarrow> int) \<Rightarrow> (bool \<times> bool) list \<Rightarrow> round_env list \<Rightarrow> outcome" where
  "main ticks_diff opp_presses envs =
     (case choose_opponent opp_presses of
        (None, fx) \<Rightarrow> Waiting (start fx)
      | (Some opponent_id, fx) \<Rightarrow>
          (case create_address MYID opponent_id of
             Inl e \<Rightarrow> Raised e (start fx)
           | Inr radio_address \<Rightarrow>
               (let decimal_number = from_bytes_little radio_address
                in main_loop ticks_diff (start (fx @ [RadioConfig 6 decimal_number, RadioOn])) envs)))"

section \<open>Sample observations\<close>

text \<open>
  Concrete inputs for running the model: a clock difference without wrap-around, a pass of
  the inner loop that hears \<open>rx\<close> at time \<open>t\<close>, a state at the start of the inner loop of
  round \<open>r\<close> with move \<open>c\<close> and the scores so far, and the observations of one round.
\<close>

definition plain_diff :: "int \<Rightarrow> int \<Rightarrow> int" where
  "plain_diff a b = a - b"

definition heard :: "bytes option \<Rightarrow> int \<Rightarrow> poll" where
  "heard rx t = \<lparr>received = rx, current_time = t, resend_time = t\<rparr>"

definition in_round :: "int \<Rightarrow> bytes \<Rightarrow> int \<Rightarrow> int \<Rightarrow> game" where
  "in_round r c mine theirs = \<lparr>your_score = mine, opp_score = theirs, round_number = r, choice = c,
     send_time = 0, acknowledged = False, resolved = False, trace = []\<rparr>"

definition one_round :: "(bool \<times> bool) list \<Rightarrow> poll list \<Rightarrow> round_env" where
  "one_round bs ps = \<lparr>presses = bs, sent_time = 0, polls = ps\<rparr>"

section \<open>Reading a run\<close>

text \<open>The state an outcome carries.\<close>

fun state_of :: "outcome \<Rightarrow> game" where
  "state_of (Next g) = g"
| "state_of (Waiting g) = g"
| "state_of (Halted msg g) = g"
| "state_of (Raised e g) = g"

text \<open>The frames handed to \<open>radio.send_bytes\<close>, in order.\<close>

fun radio_out :: "effect list \<Rightarrow> bytes list" where
  "radio_out [] = []"
| "radio_out (RadioSend f # fx) = f # radio_out fx"
| "radio_out (e # fx) = radio_out fx"

text \<open>
  The pictures \<open>resolve\<close> has put on the display. Nothing else in the program shows a face,
  so their number is the number of calls of \<open>resolve\<close> that returned.
\<close>

fun faces_shown :: "effect list \<Rightarrow> face list" where
  "faces_shown [] = []"
| "faces_shown (ShowFace f # fx) = f # faces_shown fx"
| "faces_shown (e # fx) = faces_shown fx"

text \<open>
  The identifiers \<open>choose_opponent\<close> can return, and the shape of \<open>MYID\<close>: two characters
  out of the sixteen that \<open>hex(n)[-1]\<close> produces.
\<close>

definition valid_id :: "bytes \<Rightarrow> bool" where
  "valid_id i \<longleftrightarrow> length i = 2 \<and> set i \<subseteq> set ''0123456789abcdef''"

text \<open>
  What holds of the scores when a round starts: neither is negative and together they are
  below the round number, which is 1, 2 or 3.
\<close>

definition well_scored :: "game \<Rightarrow> bool" where
  "well_scored g \<longleftrightarrow> 1 \<le> round_number g \<and> round_number g \<le> 3
     \<and> 0 \<le> your_score g \<and> 0 \<le> opp_score g
     \<and> your_score g + opp_score g + 1 \<le> round_number g"

declare dec_digits.simps [simp del]

section \<open>Outcome of a round: \<open>resolve\<close>\<close>

lemmas resolve_unfold = resolve_def RPS_def py_index_def py_get_def faces_def

text \<open>
  C2. For each of the nine pairs of moves \<open>resolve\<close> returns, without raising, one of
  \<open>(0, 0)\<close>, \<open>(1, 0)\<close>, \<open>(0, 1)\<close>: \<open>(0, 0)\<close> exactly for equal moves, \<open>(1, 0)\<close> exactly when
  the own move beats the other (Rock beats Scissors, Scissors beats Paper, Paper beats
  Rock), \<open>(0, 1)\<close> exactly when the other move beats the own.
\<close>

theorem resolve_total_precedence:
  "my \<in> set RPS \<Longrightarrow> opp \<in> set RPS \<Longrightarrow>
     (\<exists>f p. resolve my opp = Inr ([ShowFace f, Sleep 1000], p)
        \<and> p \<in> {(0, 0), (1, 0), (0, 1)}
        \<and> (p = (0, 0) \<longleftrightarrow> my = opp)
        \<and> (p = (1, 0) \<longleftrightarrow> (my, opp) \<in> {(''R'', ''S''), (''S'', ''P''), (''P'', ''R'')})
        \<and> (p = (0, 1) \<longleftrightarrow> (opp, my) \<in> {(''R'', ''S''), (''S'', ''P''), (''P'', ''R'')}))"
  by (auto simp add: resolve_unfold)

theorem resolve_total_precedence_witness:
  "resolve ''R'' ''S'' = Inr ([ShowFace HAPPY, Sleep 1000], 1, 0)
   \<and> resolve ''S'' ''R'' = Inr ([ShowFace SAD, Sleep 1000], 0, 1)
   \<and> resolve ''P'' ''P'' = Inr ([ShowFace ASLEEP, Sleep 1000], 0, 0)"
proof -
  have r: "''R'' \<in> set RPS" and s: "''S'' \<in> set RPS" and p: "''P'' \<in> set RPS"
    by (simp_all add: RPS_def)
  have "resolve ''R'' ''S'' = Inr ([ShowFace HAPPY, Sleep 1000], 1, 0)"
    using resolve_total_precedence [OF r s] by (auto simp add: resolve_unfold)
  moreover have "resolve ''S'' ''R'' = Inr ([ShowFace SAD, Sleep 1000], 0, 1)"
    using resolve_total_precedence [OF s r] by (auto simp add: resolve_unfold)
  moreover have "resolve ''P'' ''P'' = Inr ([ShowFace ASLEEP, Sleep 1000], 0, 0)"
    using resolve_total_precedence [OF p p] by (auto simp add: resolve_unfold)
  ultimately show ?thesis by blast
qed

text \<open>
  C8. Swapping the roles swaps the points: for moves \<open>a\<close> and \<open>b\<close> the own point of
  \<open>resolve a b\<close> is the opponent's point of \<open>resolve b a\<close>.
\<close>

theorem resolve_role_swap:
  "a \<in> set RPS \<Longrightarrow> b \<in> set RPS \<Longrightarrow>
     (\<exists>fx p q fx' p' q'. resolve a b = Inr (fx, p, q) \<and> resolve b a = Inr (fx', p', q') \<and> p = q')"
  by (auto simp add: resolve_unfold)

theorem resolve_role_swap_witness:
  "''P'' \<in> set RPS \<and> ''R'' \<in> set RPS
   \<and> (\<exists>fx p q fx' p' q'. resolve ''P'' ''R'' = Inr (fx, p, q)
         \<and> resolve ''R'' ''P'' = Inr (fx', p', q') \<and> p = q')"
proof -
  have p: "''P'' \<in> set RPS" and r: "''R'' \<in> set RPS"
    by (simp_all add: RPS_def)
  from p r resolve_role_swap [OF p r] show ?thesis by (intro conjI)
qed

section \<open>Channel derivation: \<open>create_address\<close>\<close>

lemma hex_last_digit:
  "c \<in> set ''0123456789abcdef'' \<Longrightarrow> \<exists>d < 16. hex_digit c = Some d \<and> hex_last d = c"
  by (auto simp add: hex_digit_def py_index_def hex_last_def)

lemma hex_last_in: "hex_last n \<in> set ''0123456789abcdef''"
proof -
  have "n mod 16 < length ''0123456789abcdef''" by simp
  then show ?thesis unfolding hex_last_def by (rule nth_mem)
qed

lemma valid_id_value:
  assumes "valid_id i"
  shows "\<exists>a < 16. \<exists>b < 16. i = [hex_last a, hex_last b] \<and> py_int16 i = Inr (16 * int a + int b)"
proof -
  from assms obtain x y where i: "i = [x, y]"
    and x: "x \<in> set ''0123456789abcdef''" and y: "y \<in> set ''0123456789abcdef''"
    unfolding valid_id_def
    by (cases i; simp; (rename_tac h t, case_tac t; simp))
  from hex_last_digit [OF x] obtain a where a: "a < 16" "hex_digit x = Some a" "hex_last a = x" by blast
  from hex_last_digit [OF y] obtain b where b: "b < 16" "hex_digit y = Some b" "hex_last b = y" by blast
  have "py_int16 i = Inr (16 * int a + int b)"
    by (simp add: py_int16_def i a b)
  with i a b show ?thesis by blast
qed

lemma hex_pair_inj:
  fixes a b c d :: nat
  assumes "b < 16" "d < 16" "16 * int a + int b = 16 * int c + int d"
  shows "a = c \<and> b = d"
proof -
  have e: "16 * a + b = 16 * c + d" using assms(3) by linarith
  have "(16 * a + b) div 16 = a" using assms(1) by simp
  moreover have "(16 * c + d) div 16 = c" using assms(2) by simp
  ultimately have ac: "a = c" using e by simp
  with e have "b = d" by simp
  with ac show ?thesis by simp
qed

lemma valid_id_inj:
  assumes "valid_id i" "valid_id j" "py_int16 i = Inr v" "py_int16 j = Inr v"
  shows "i = j"
proof -
  from valid_id_value [OF assms(1)] obtain a b where
    ab: "b < 16" "i = [hex_last a, hex_last b]" "py_int16 i = Inr (16 * int a + int b)" by blast
  from valid_id_value [OF assms(2)] obtain c d where
    cd: "d < 16" "j = [hex_last c, hex_last d]" "py_int16 j = Inr (16 * int c + int d)" by blast
  have "Inr (16 * int a + int b) = (Inr (16 * int c + int d) :: py_error + int)"
    using ab(3) cd(3) assms(3,4) by (simp only:)
  then have "16 * int a + int b = 16 * int c + int d" by (simp only: sum.inject)
  from hex_pair_inj [OF ab(1) cd(1) this] have "a = c \<and> b = d" .
  then show ?thesis by (simp only: ab(2) cd(2))
qed

text \<open>Every identifier the program hands to \<open>create_address\<close> is a valid one.\<close>

lemma choose_opponent_loop_length:
  "choose_opponent_loop num idx bs tr = (Some num', tr') \<Longrightarrow> length num' = length num"
  by (induction num idx bs tr rule: choose_opponent_loop.induct) (auto simp add: Let_def split: if_splits)

lemma choose_opponent_valid:
  assumes "choose_opponent bs = (Some i, fx)"
  shows "valid_id i"
proof -
  from assms obtain num tr where l: "choose_opponent_loop [0, 0] 0 bs [] = (Some num, tr)"
    and i: "i = map hex_last num"
    by (auto simp add: choose_opponent_def split: prod.splits option.splits)
  from choose_opponent_loop_length [OF l] have "length num = 2" by simp
  with i show ?thesis using hex_last_in by (auto simp add: valid_id_def)
qed

lemma MYID_valid: "valid_id MYID"
  by (simp add: valid_id_def MYID_def)

text \<open>
  Two identifiers with the same value and different letter case are told apart by the
  concatenation, which is why \<open>valid_id\<close> follows \<open>choose_opponent\<close> in having lower case only.
\<close>

lemma create_address_mixed_case:
  "create_address ''0A'' ''0a'' = Inr ''0A0a'' \<and> create_address ''0a'' ''0A'' = Inr ''0a0A''"
  by (simp add: create_address_def py_int16_def hex_digit_def py_index_def)

text \<open>
  C3. For valid identifiers \<open>A\<close> and \<open>B\<close> both read as base-16 numbers, \<open>create_address\<close>
  puts the one with the smaller value first and the larger second, the local one first when
  the values are equal, and gives the same address whichever of the two is the local one.
\<close>

theorem create_address_commutes:
  assumes "valid_id A" and "valid_id B"
  shows "\<exists>a b. py_int16 A = Inr a \<and> py_int16 B = Inr b
           \<and> create_address A B = Inr (if a \<le> b then A @ B else B @ A)
           \<and> create_address B A = create_address A B"
proof -
  from valid_id_value [OF assms(1)] obtain a where a: "py_int16 A = Inr a" by blast
  from valid_id_value [OF assms(2)] obtain b where b: "py_int16 B = Inr b" by blast
  have ab: "create_address A B = Inr (if a \<le> b then A @ B else B @ A)"
    by (simp add: create_address_def a b)
  have ba: "create_address B A = Inr (if b \<le> a then B @ A else A @ B)"
    by (simp add: create_address_def a b)
  have "create_address B A = create_address A B"
  proof (cases "a = b")
    case True
    with assms a b have "A = B" using valid_id_inj by blast
    then show ?thesis by simp
  next
    case False
    then show ?thesis unfolding ab ba by auto
  qed
  with a b ab show ?thesis by blast
qed

theorem create_address_commutes_witness:
  "valid_id ''0a'' \<and> valid_id ''2f''
   \<and> create_address ''0a'' ''2f'' = Inr ''0a2f''
   \<and> create_address ''2f'' ''0a'' = Inr ''0a2f''"
proof -
  have v1: "valid_id ''0a''" and v2: "valid_id ''2f''" by (simp_all add: valid_id_def)
  have e: "create_address ''0a'' ''2f'' = Inr ''0a2f''"
    by (simp add: create_address_def py_int16_def hex_digit_def py_index_def)
  from create_address_commutes [OF v1 v2] e v1 v2 show ?thesis by auto
qed

section \<open>The codec: \<open>send_choice\<close>, \<open>send_acknowledgement\<close>, \<open>parse_message\<close>\<close>

lemma py_str_one_digit: "0 \<le> r \<Longrightarrow> r \<le> 9 \<Longrightarrow> py_str r = [digit_char (nat r)]"
  by (simp add: py_str_def dec_digits.simps)

lemma digit_char_inj:
  "a < 10 \<Longrightarrow> b < 10 \<Longrightarrow> digit_char a = digit_char b \<Longrightarrow> a = b"
proof -
  assume a: "a < 10" and b: "b < 10" and e: "digit_char a = digit_char b"
  have A: "a \<in> {0,1,2,3,4,5,6,7,8,9}" using a by auto
  have B: "b \<in> {0,1,2,3,4,5,6,7,8,9}" using b by auto
  from A B e show ?thesis by (auto simp add: digit_char_def)
qed

lemma py_str_inj_digits:
  assumes "0 \<le> r" "r \<le> 9" "0 \<le> r'" "r' \<le> 9" "py_str r = py_str r'"
  shows "r = r'"
proof -
  have "digit_char (nat r) = digit_char (nat r')"
    using assms by (simp add: py_str_one_digit)
  then have "nat r = nat r'"
    using assms digit_char_inj [of "nat r" "nat r'"] by simp
  then show ?thesis using assms by simp
qed

text \<open>What \<open>parse_message\<close> returns and sends, by the shape of what was received.\<close>

lemma parse_message_cases:
  "parse_message rn rx =
     (if \<exists>c d. rx = Some [c, d] \<and> c \<in> {CHR ''R'', CHR ''P'', CHR ''S''} \<and> py_str rn = [d]
      then (rx, [RadioSend (CHR ''X'' # py_str rn)])
      else if \<exists>d. rx = Some [CHR ''X'', d] \<and> py_str rn = [d]
      then (rx, [])
      else (None, []))"
proof (cases rx)
  case None
  then show ?thesis by (simp add: parse_message_def)
next
  case (Some m)
  show ?thesis
  proof (cases "length m = 2")
    case False
    then have "\<And>c d. m \<noteq> [c, d]" by auto
    with Some False show ?thesis by (simp add: parse_message_def)
  next
    case True
    then obtain c d where m: "m = [c, d]"
      by (cases m; simp; (rename_tac a list, case_tac list; simp))
    have e1: "(\<exists>c' d'. Some [c, d] = Some [c', d'] \<and> c' \<in> {CHR ''R'', CHR ''P'', CHR ''S''}
                 \<and> py_str rn = [d'])
               = (c \<in> {CHR ''R'', CHR ''P'', CHR ''S''} \<and> py_str rn = [d])"
      by auto
    have e2: "(\<exists>d'. Some [c, d] = Some [CHR ''X'', d'] \<and> py_str rn = [d'])
               = (c = CHR ''X'' \<and> py_str rn = [d])"
      by auto
    show ?thesis
      unfolding Some m e1 e2
      by (cases "py_str rn = [d]")
         (auto simp add: parse_message_def RPS_def send_acknowledgement_def)
  qed
qed

text \<open>
  C5. For a positive expected round number \<open>parse_message\<close> returns \<open>None\<close> and sends nothing
  when nothing was received, when the message is empty, when its length is not two, when
  its second byte is not the decimal text of the round number, and when its first byte is
  none of \<open>R\<close>, \<open>P\<close>, \<open>S\<close>, \<open>X\<close>.
\<close>

theorem parse_message_rejects:
  "0 < rn \<Longrightarrow>
     parse_message rn None = (None, [])
     \<and> parse_message rn (Some []) = (None, [])
     \<and> (length m \<noteq> 2 \<longrightarrow> parse_message rn (Some m) = (None, []))
     \<and> ([c1] \<noteq> py_str rn \<longrightarrow> parse_message rn (Some [c0, c1]) = (None, []))
     \<and> (c0 \<notin> {CHR ''R'', CHR ''P'', CHR ''S'', CHR ''X''} \<longrightarrow>
          parse_message rn (Some [c0, c1]) = (None, []))"
  by (auto simp add: parse_message_def RPS_def)

theorem parse_message_rejects_witness:
  "(0::int) < 1
   \<and> parse_message 1 None = (None, [])
   \<and> parse_message 1 (Some []) = (None, [])
   \<and> length ''R12'' \<noteq> 2 \<and> parse_message 1 (Some ''R12'') = (None, [])
   \<and> [CHR ''2''] \<noteq> py_str 1 \<and> parse_message 1 (Some ''Q2'') = (None, [])
   \<and> CHR ''Q'' \<notin> {CHR ''R'', CHR ''P'', CHR ''S'', CHR ''X''}"
proof -
  have pos: "(0::int) < 1" by simp
  have len: "length ''R12'' \<noteq> 2" by simp
  have dig: "[CHR ''2''] \<noteq> py_str 1" by (simp add: py_str_def dec_digits.simps digit_char_def)
  have mv: "CHR ''Q'' \<notin> {CHR ''R'', CHR ''P'', CHR ''S'', CHR ''X''}" by simp
  from parse_message_rejects [OF pos, of "''R12''" "CHR ''2''" "CHR ''Q''"] pos len dig mv
  show ?thesis by blast
qed

text \<open>
  C6. A two-byte frame whose first byte is a move and whose second byte is the decimal
  digit of the expected round is returned with exactly one frame sent, \<open>X\<close> and that digit;
  an acknowledgement frame for the round is returned with nothing sent; whenever the result
  is \<open>None\<close> nothing is sent; and whatever is sent is that one acknowledgement, for an
  accepted move frame.
\<close>

theorem parse_message_acknowledges:
  "(c \<in> {CHR ''R'', CHR ''P'', CHR ''S''} \<and> py_str rn = [d] \<longrightarrow>
      parse_message rn (Some [c, d]) = (Some [c, d], [RadioSend [CHR ''X'', d]]))
   \<and> (py_str rn = [d] \<longrightarrow> parse_message rn (Some [CHR ''X'', d]) = (Some [CHR ''X'', d], []))
   \<and> (fst (parse_message rn rx) = None \<longrightarrow> snd (parse_message rn rx) = [])
   \<and> (snd (parse_message rn rx') \<noteq> [] \<longrightarrow>
        (\<exists>c' d'. rx' = Some [c', d'] \<and> c' \<in> {CHR ''R'', CHR ''P'', CHR ''S''} \<and> py_str rn = [d']
           \<and> parse_message rn rx' = (rx', [RadioSend [CHR ''X'', d']])))"
proof (intro conjI impI)
  assume a: "c \<in> {CHR ''R'', CHR ''P'', CHR ''S''} \<and> py_str rn = [d]"
  then have "\<exists>c' d'. Some [c, d] = Some [c', d'] \<and> c' \<in> {CHR ''R'', CHR ''P'', CHR ''S''}
      \<and> py_str rn = [d']" by blast
  then show "parse_message rn (Some [c, d]) = (Some [c, d], [RadioSend [CHR ''X'', d]])"
    using a by (simp only: parse_message_cases [of rn "Some [c, d]"] if_True)
next
  assume a: "py_str rn = [d]"
  then show "parse_message rn (Some [CHR ''X'', d]) = (Some [CHR ''X'', d], [])"
    by (simp add: parse_message_def RPS_def)
next
  assume "fst (parse_message rn rx) = None"
  then show "snd (parse_message rn rx) = []"
    by (simp add: parse_message_cases [of rn rx] split: if_splits)
next
  assume a: "snd (parse_message rn rx') \<noteq> []"
  show "\<exists>c' d'. rx' = Some [c', d'] \<and> c' \<in> {CHR ''R'', CHR ''P'', CHR ''S''} \<and> py_str rn = [d']
          \<and> parse_message rn rx' = (rx', [RadioSend [CHR ''X'', d']])"
  proof (cases "\<exists>c d. rx' = Some [c, d] \<and> c \<in> {CHR ''R'', CHR ''P'', CHR ''S''} \<and> py_str rn = [d]")
    case True
    then obtain c' d' where h: "rx' = Some [c', d']" "c' \<in> {CHR ''R'', CHR ''P'', CHR ''S''}"
      "py_str rn = [d']" by blast
    from True have "parse_message rn rx' = (rx', [RadioSend (CHR ''X'' # py_str rn)])"
      by (simp only: parse_message_cases [of rn rx'] if_True)
    with h show ?thesis by simp
  next
    case False
    then have "snd (parse_message rn rx') = []"
      by (simp only: parse_message_cases [of rn rx'] if_False) simp
    with a show ?thesis by simp
  qed
qed

theorem parse_message_acknowledges_witness:
  "py_str 1 = [CHR ''1'']
   \<and> parse_message 1 (Some ''R1'') = (Some ''R1'', [RadioSend ''X1''])
   \<and> parse_message 1 (Some ''X1'') = (Some ''X1'', [])
   \<and> fst (parse_message 1 (Some ''R2'')) = None
   \<and> snd (parse_message 1 (Some ''R2'')) = []
   \<and> snd (parse_message 1 (Some ''S1'')) \<noteq> []
   \<and> (\<exists>c' d'. Some ''S1'' = Some [c', d'] \<and> c' \<in> {CHR ''R'', CHR ''P'', CHR ''S''}
         \<and> py_str 1 = [d'] \<and> parse_message 1 (Some ''S1'') = (Some ''S1'', [RadioSend [CHR ''X'', d']]))"
proof -
  have d: "py_str 1 = [CHR ''1'']" by (simp add: py_str_def dec_digits.simps digit_char_def)
  have r: "CHR ''R'' \<in> {CHR ''R'', CHR ''P'', CHR ''S''}" by simp
  have n: "fst (parse_message 1 (Some ''R2'')) = None" by (simp add: parse_message_def d)
  have m: "snd (parse_message 1 (Some ''S1'')) \<noteq> []"
    by (simp add: parse_message_def d RPS_def send_acknowledgement_def)
  from parse_message_acknowledges [of "CHR ''R''" 1 "CHR ''1''" "Some ''R2''" "Some ''S1''"] d r n m
  show ?thesis by blast
qed

text \<open>
  C4. For a move and a round from 1 to 9, \<open>send_choice\<close> sends the two bytes move and round
  digit; \<open>parse_message\<close> for that round accepts the frame as a move (it returns the frame
  and acknowledges it), the first byte of what it returns is the move; and for every other
  round from 1 to 9 it returns \<open>None\<close>.
\<close>

theorem codec_round_trip:
  assumes "mv \<in> set RPS" and "1 \<le> r" and "r \<le> 9"
  shows "\<exists>c d. mv = [c] \<and> py_str r = [d]
          \<and> send_choice mv r t = ([RadioSend [c, d]], t)
          \<and> parse_message r (Some [c, d]) = (Some [c, d], [RadioSend [CHR ''X'', d]])
          \<and> take 1 [c, d] = mv
          \<and> (\<forall>r'. 1 \<le> r' \<and> r' \<le> 9 \<and> r' \<noteq> r \<longrightarrow> parse_message r' (Some [c, d]) = (None, []))"
proof -
  from assms(1) obtain c where c: "mv = [c]" and c3: "c \<in> {CHR ''R'', CHR ''P'', CHR ''S''}"
    by (auto simp add: RPS_def)
  define d where "d = digit_char (nat r)"
  have d: "py_str r = [d]" using assms by (simp add: py_str_one_digit d_def)
  have s: "send_choice mv r t = ([RadioSend [c, d]], t)"
    by (simp add: send_choice_def c d)
  have "\<exists>c' d'. Some [c, d] = Some [c', d'] \<and> c' \<in> {CHR ''R'', CHR ''P'', CHR ''S''} \<and> py_str r = [d']"
    using c3 d by blast
  then have p: "parse_message r (Some [c, d]) = (Some [c, d], [RadioSend [CHR ''X'', d]])"
    by (simp only: parse_message_cases [of r "Some [c, d]"] if_True d)
  have w: "parse_message r' (Some [c, d]) = (None, [])" if "1 \<le> r'" "r' \<le> 9" "r' \<noteq> r" for r'
  proof -
    have "py_str r' \<noteq> py_str r"
      using py_str_inj_digits [of r' r] that assms by auto
    then have "take 1 (drop 1 [c, d]) \<noteq> py_str r'" by (simp add: d)
    then show ?thesis by (simp add: parse_message_def)
  qed
  have k: "take 1 [c, d] = mv" by (simp add: c)
  show ?thesis
    by (rule exI [of _ c], rule exI [of _ d]) (use c d s p w k in blast)
qed

theorem codec_round_trip_witness:
  "''P'' \<in> set RPS \<and> (1::int) \<le> 3 \<and> (3::int) \<le> 9
   \<and> send_choice ''P'' 3 100 = ([RadioSend ''P3''], 100)
   \<and> parse_message 3 (Some ''P3'') = (Some ''P3'', [RadioSend ''X3''])
   \<and> parse_message 2 (Some ''P3'') = (None, [])"
proof -
  have p: "''P'' \<in> set RPS" by (simp add: RPS_def)
  have lo: "(1::int) \<le> 3" and hi: "(3::int) \<le> 9" by simp_all
  have d: "py_str 3 = [CHR ''3'']" by (simp add: py_str_def dec_digits.simps digit_char_def)
  from codec_round_trip [OF p lo hi, of 100] obtain c e where
    h: "''P'' = [c]" "py_str 3 = [e]" "send_choice ''P'' 3 100 = ([RadioSend [c, e]], 100)"
       "parse_message 3 (Some [c, e]) = (Some [c, e], [RadioSend [CHR ''X'', e]])"
       "\<forall>r'. 1 \<le> r' \<and> r' \<le> 9 \<and> r' \<noteq> 3 \<longrightarrow> parse_message r' (Some [c, e]) = (None, [])"
    by blast
  from h(1) have c: "c = CHR ''P''" by simp
  from h(2) d have e: "e = CHR ''3''" by simp
  from h(5) have "parse_message 2 (Some [c, e]) = (None, [])" by simp
  with h(3,4) c e p lo hi show ?thesis by simp
qed

section \<open>The round loop of \<open>main\<close>\<close>

lemmas run_unfold = in_round_def heard_def plain_diff_def round_body_def parse_message_def
  process_message_def resolve_unfold display_score_def announce_def resend_if_due_def
  send_choice_def send_acknowledgement_def py_str_def dec_digits.simps digit_char_def Let_def

lemma resolve_total_precedence_aux:
  "my \<in> set RPS \<Longrightarrow> opp \<in> set RPS \<Longrightarrow>
     \<exists>f a b. resolve my opp = Inr ([ShowFace f, Sleep 1000], a, b)"
  by (auto simp add: resolve_unfold)

lemma faces_shown_append: "faces_shown (xs @ ys) = faces_shown xs @ faces_shown ys"
  by (induction xs rule: faces_shown.induct) simp_all

lemma radio_out_append: "radio_out (xs @ ys) = radio_out xs @ radio_out ys"
  by (induction xs rule: radio_out.induct) simp_all

lemma parse_message_fx:
  "snd (parse_message rn rx) = [] \<or> snd (parse_message rn rx) = [RadioSend (CHR ''X'' # py_str rn)]"
  by (simp add: parse_message_cases [of rn rx])

lemma parse_message_faces: "faces_shown (snd (parse_message rn rx)) = []"
  using parse_message_fx [of rn rx] by auto

lemma display_score_faces: "faces_shown (fst (display_score a b r n)) = []"
  by (simp add: display_score_def announce_def Let_def split: prod.splits)

lemma display_score_radio: "radio_out (fst (display_score a b r n)) = []"
  by (simp add: display_score_def announce_def Let_def split: prod.splits)

lemma resolve_Inr:
  "resolve my opp = Inr (fx, a, b) \<Longrightarrow> \<exists>f. fx = [ShowFace f, Sleep 1000]"
  by (auto simp add: resolve_def Let_def split: sum.splits)

text \<open>\<open>resend_if_due\<close> touches the send time and the trace only.\<close>

lemma resend_if_due_fields:
  "your_score (resend_if_due td g p) = your_score g"
  "opp_score (resend_if_due td g p) = opp_score g"
  "round_number (resend_if_due td g p) = round_number g"
  "choice (resend_if_due td g p) = choice g"
  "acknowledged (resend_if_due td g p) = acknowledged g"
  "resolved (resend_if_due td g p) = resolved g"
  "faces_shown (trace (resend_if_due td g p)) = faces_shown (trace g)"
  by (simp_all add: resend_if_due_def send_choice_def faces_shown_append)

lemma resend_if_due_radio:
  "radio_out (trace (resend_if_due td g p)) =
     radio_out (trace g) @
       (if \<not> acknowledged g \<and> td (current_time p) (send_time g) > 2000
        then [choice g @ py_str (round_number g)] else [])"
  "send_time (resend_if_due td g p) =
       (if \<not> acknowledged g \<and> td (current_time p) (send_time g) > 2000
        then resend_time p else send_time g)"
  by (simp_all add: resend_if_due_def send_choice_def radio_out_append)

text \<open>\<open>process_message\<close> when the round is already resolved.\<close>

lemma process_message_resolved:
  "resolved g \<Longrightarrow>
     process_message g msg =
       Next (if (\<exists>m. msg = Some m \<and> take 1 m = ''X'') \<and> \<not> acknowledged g
             then g\<lparr>acknowledged := True\<rparr> else g)"
  by (cases msg) (auto simp add: process_message_def Let_def)

text \<open>\<open>process_message\<close> on what is not a move: nothing is resolved.\<close>

lemma process_message_no_move:
  "\<not> (\<exists>m. msg = Some m \<and> take 1 m \<in> set RPS) \<Longrightarrow>
     process_message g msg =
       Next (if (\<exists>m. msg = Some m \<and> take 1 m = ''X'') \<and> \<not> acknowledged g
             then g\<lparr>acknowledged := True\<rparr> else g)"
  by (cases msg) (auto simp add: process_message_def Let_def)

lemma process_message_move:
  assumes "\<not> resolved g" and "take 1 m \<in> set RPS"
  shows "process_message g (Some m) =
     (case resolve (choice g) (take 1 m) of
        Inl e \<Rightarrow> Raised e g
      | Inr (fx, a, b) \<Rightarrow>
          (let g2 = g\<lparr>resolved := True, your_score := your_score g + a,
                      opp_score := opp_score g + b,
                      trace := trace g @ fx @
                        fst (display_score (your_score g + a) (opp_score g + b) (round_number g) 3)\<rparr>
           in case snd (display_score (your_score g + a) (opp_score g + b) (round_number g) 3) of
                Some msg \<Rightarrow> Halted msg g2 | None \<Rightarrow> Next g2))"
proof -
  from assms(2) have "m \<noteq> []" by (auto simp add: RPS_def)
  with assms show ?thesis
    by (simp add: process_message_def Let_def split: sum.splits prod.splits option.splits)
qed


lemma process_message_frame:
  "round_number (state_of (process_message g msg)) = round_number g
   \<and> choice (state_of (process_message g msg)) = choice g
   \<and> send_time (state_of (process_message g msg)) = send_time g
   \<and> radio_out (trace (state_of (process_message g msg))) = radio_out (trace g)
   \<and> (acknowledged g \<longrightarrow> acknowledged (state_of (process_message g msg)))
   \<and> (resolved g \<longrightarrow> resolved (state_of (process_message g msg)))"
proof (cases "\<not> resolved g \<and> (\<exists>m. msg = Some m \<and> take 1 m \<in> set RPS)")
  case True
  then obtain m where m: "msg = Some m" "take 1 m \<in> set RPS" and r: "\<not> resolved g" by blast
  show ?thesis
    unfolding m(1) process_message_move [OF r m(2)]
    by (auto simp add: Let_def radio_out_append display_score_radio
          dest!: resolve_Inr split: sum.splits option.splits)
next
  case False
  then have "resolved g \<or> \<not> (\<exists>m. msg = Some m \<and> take 1 m \<in> set RPS)" by blast
  then show ?thesis
    by (auto simp add: process_message_resolved process_message_no_move)
qed

lemma round_body_frame:
  "round_number (state_of (round_body td g p)) = round_number g
   \<and> choice (state_of (round_body td g p)) = choice g
   \<and> (acknowledged g \<longrightarrow> acknowledged (state_of (round_body td g p)))
   \<and> (resolved g \<longrightarrow> resolved (state_of (round_body td g p)))"
proof -
  obtain message fx where pm: "parse_message (round_number g) (received p) = (message, fx)"
    by (cases "parse_message (round_number g) (received p)")
  define g0 where "g0 = g\<lparr>trace := trace g @ fx\<rparr>"
  have rb: "round_body td g p =
      (case process_message g0 message of Next g1 \<Rightarrow> Next (resend_if_due td g1 p) | other \<Rightarrow> other)"
    by (simp add: round_body_def pm g0_def)
  have f: "round_number g0 = round_number g" "choice g0 = choice g"
    "acknowledged g0 = acknowledged g" "resolved g0 = resolved g"
    by (simp_all add: g0_def)
  from process_message_frame [of g0 message] show ?thesis
    unfolding rb f
    by (cases "process_message g0 message") (simp_all add: resend_if_due_fields)
qed

lemma round_body_resolved:
  assumes "resolved g"
  shows "\<exists>g'. round_body td g p = Next g' \<and> resolved g'
           \<and> your_score g' = your_score g \<and> opp_score g' = opp_score g
           \<and> faces_shown (trace g') = faces_shown (trace g)"
proof -
  obtain message fx where pm: "parse_message (round_number g) (received p) = (message, fx)"
    by (cases "parse_message (round_number g) (received p)")
  have fx: "faces_shown fx = []"
    using parse_message_faces [of "round_number g" "received p"] by (simp add: pm)
  define g0 where "g0 = g\<lparr>trace := trace g @ fx\<rparr>"
  have r0: "resolved g0" using assms by (simp add: g0_def)
  have rb: "round_body td g p =
      (case process_message g0 message of Next g1 \<Rightarrow> Next (resend_if_due td g1 p) | other \<Rightarrow> other)"
    by (simp add: round_body_def pm g0_def)
  show ?thesis
    unfolding rb process_message_resolved [OF r0]
    by (simp add: resend_if_due_fields g0_def faces_shown_append fx assms)
qed

lemma round_body_radio:
  assumes "round_body td g p = Next g'"
  shows "radio_out (trace g') =
           radio_out (trace g) @ radio_out (snd (parse_message (round_number g) (received p))) @
             (if \<not> acknowledged g' \<and> td (current_time p) (send_time g) > 2000
              then [choice g @ py_str (round_number g)] else [])
         \<and> send_time g' =
             (if \<not> acknowledged g' \<and> td (current_time p) (send_time g) > 2000
              then resend_time p else send_time g)"
proof -
  obtain message fx where pm: "parse_message (round_number g) (received p) = (message, fx)"
    by (cases "parse_message (round_number g) (received p)")
  define g0 where "g0 = g\<lparr>trace := trace g @ fx\<rparr>"
  have rb: "round_body td g p =
      (case process_message g0 message of Next g1 \<Rightarrow> Next (resend_if_due td g1 p) | other \<Rightarrow> other)"
    by (simp add: round_body_def pm g0_def)
  from assms rb obtain g1 where g1: "process_message g0 message = Next g1"
    and g': "g' = resend_if_due td g1 p"
    by (cases "process_message g0 message") simp_all
  have f: "round_number g0 = round_number g" "choice g0 = choice g" "send_time g0 = send_time g"
    "radio_out (trace g0) = radio_out (trace g) @ radio_out fx"
    by (simp_all add: g0_def radio_out_append)
  from process_message_frame [of g0 message] have
    k: "round_number g1 = round_number g" "choice g1 = choice g" "send_time g1 = send_time g"
       "radio_out (trace g1) = radio_out (trace g) @ radio_out fx"
    unfolding g1 f by simp_all
  show ?thesis
    by (simp add: g' resend_if_due_radio resend_if_due_fields k pm)
qed


lemma round_body_just_resolved:
  assumes "\<not> resolved g" and "resolved (state_of (round_body td g p))"
  shows "round_body td g p =
     (case snd (display_score (your_score (state_of (round_body td g p)))
                  (opp_score (state_of (round_body td g p))) (round_number g) 3) of
        Some msg \<Rightarrow> Halted msg (state_of (round_body td g p))
      | None \<Rightarrow> Next (state_of (round_body td g p)))"
proof -
  obtain message fx where pm: "parse_message (round_number g) (received p) = (message, fx)"
    by (cases "parse_message (round_number g) (received p)")
  define g0 where "g0 = g\<lparr>trace := trace g @ fx\<rparr>"
  have r0: "\<not> resolved g0" using assms(1) by (simp add: g0_def)
  have f: "round_number g0 = round_number g" by (simp add: g0_def)
  have rb: "round_body td g p =
      (case process_message g0 message of Next g1 \<Rightarrow> Next (resend_if_due td g1 p) | other \<Rightarrow> other)"
    by (simp add: round_body_def pm g0_def)
  show ?thesis
  proof (cases "\<exists>m. message = Some m \<and> take 1 m \<in> set RPS")
    case False
    then have "resolved (state_of (round_body td g p)) = resolved g0"
      unfolding rb by (simp add: process_message_no_move resend_if_due_fields)
    with assms(2) r0 show ?thesis by simp
  next
    case True
    then obtain m where m: "message = Some m" "take 1 m \<in> set RPS" by blast
    show ?thesis
    proof (cases "resolve (choice g0) (take 1 m)")
      case (Inl e)
      then have "round_body td g p = Raised e g0"
        unfolding rb m(1) process_message_move [OF r0 m(2)] by simp
      with assms(2) r0 show ?thesis by simp
    next
      case (Inr r)
      obtain rfx a b where r: "r = (rfx, a, b)" by (cases r)
      show ?thesis
        unfolding rb m(1) process_message_move [OF r0 m(2)] Inr r f
        by (simp add: Let_def resend_if_due_fields g0_def split: option.splits)
    qed
  qed
qed

lemma round_body_move:
  assumes "\<not> resolved g" and "choice g \<in> set RPS" and "m \<in> set RPS"
    and "py_str (round_number g) = [d]" and "received p = Some (m @ [d])"
  shows "\<exists>f a b. resolve (choice g) m = Inr ([ShowFace f, Sleep 1000], a, b)
     \<and> (\<exists>msg. round_body td g p = Halted msg (state_of (round_body td g p))
          \<or> round_body td g p = Next (state_of (round_body td g p)))
     \<and> resolved (state_of (round_body td g p))
     \<and> your_score (state_of (round_body td g p)) = your_score g + a
     \<and> opp_score (state_of (round_body td g p)) = opp_score g + b
     \<and> faces_shown (trace (state_of (round_body td g p))) = faces_shown (trace g) @ [f]"
proof -
  from assms(3) obtain c where c: "m = [c]" "c \<in> {CHR ''R'', CHR ''P'', CHR ''S''}"
    by (auto simp add: RPS_def)
  from resolve_total_precedence_aux [OF assms(2,3)] obtain f a b where
    res: "resolve (choice g) m = Inr ([ShowFace f, Sleep 1000], a, b)" by blast
  have "\<exists>c' d'. Some [c, d] = Some [c', d'] \<and> c' \<in> {CHR ''R'', CHR ''P'', CHR ''S''}
      \<and> py_str (round_number g) = [d']" using c(2) assms(4) by blast
  then have pm: "parse_message (round_number g) (received p) =
      (Some [c, d], [RadioSend (CHR ''X'' # py_str (round_number g))])"
    unfolding assms(5) c(1) by (simp only: parse_message_cases append.simps if_True)
  define g0 where "g0 = g\<lparr>trace := trace g @ [RadioSend (CHR ''X'' # py_str (round_number g))]\<rparr>"
  have r0: "\<not> resolved g0" using assms(1) by (simp add: g0_def)
  have t: "take 1 [c, d] \<in> set RPS" using assms(3) c(1) by simp
  have res0: "resolve (choice g0) (take 1 [c, d]) = Inr ([ShowFace f, Sleep 1000], a, b)"
    using res by (simp add: g0_def c(1))
  have rb: "round_body td g p =
      (case process_message g0 (Some [c, d]) of Next g1 \<Rightarrow> Next (resend_if_due td g1 p) | other \<Rightarrow> other)"
    by (simp add: round_body_def pm g0_def)
  have "(\<exists>msg. round_body td g p = Halted msg (state_of (round_body td g p))
          \<or> round_body td g p = Next (state_of (round_body td g p)))
     \<and> resolved (state_of (round_body td g p))
     \<and> your_score (state_of (round_body td g p)) = your_score g + a
     \<and> opp_score (state_of (round_body td g p)) = opp_score g + b
     \<and> faces_shown (trace (state_of (round_body td g p))) = faces_shown (trace g) @ [f]"
    unfolding rb process_message_move [OF r0 t] res0
    by (simp add: Let_def resend_if_due_fields g0_def faces_shown_append display_score_faces
          split: option.splits)
  with res show ?thesis by blast
qed

lemma round_loop_resolved:
  "resolved g \<Longrightarrow>
     (round_loop td g ps = Next (state_of (round_loop td g ps))
        \<or> round_loop td g ps = Waiting (state_of (round_loop td g ps)))
     \<and> resolved (state_of (round_loop td g ps))
     \<and> your_score (state_of (round_loop td g ps)) = your_score g
     \<and> opp_score (state_of (round_loop td g ps)) = opp_score g
     \<and> faces_shown (trace (state_of (round_loop td g ps))) = faces_shown (trace g)
     \<and> round_number (state_of (round_loop td g ps)) = round_number g
     \<and> choice (state_of (round_loop td g ps)) = choice g"
proof (induction ps arbitrary: g)
  case Nil
  then show ?case by simp
next
  case (Cons p ps)
  from round_body_resolved [OF Cons.prems, of td p] obtain g1 where
    g1: "round_body td g p = Next g1" "resolved g1" "your_score g1 = your_score g"
        "opp_score g1 = opp_score g" "faces_shown (trace g1) = faces_shown (trace g)"
    by blast
  from round_body_frame [of td g p] g1(1) have
    k: "round_number g1 = round_number g" "choice g1 = choice g" by simp_all
  from Cons.IH [OF g1(2)] show ?case
    by (simp add: g1 k Cons.prems)
qed

lemma process_message_not_waiting: "process_message g msg \<noteq> Waiting x"
proof (cases "\<not> resolved g \<and> (\<exists>m. msg = Some m \<and> take 1 m \<in> set RPS)")
  case True
  then obtain m where m: "msg = Some m" "take 1 m \<in> set RPS" and r: "\<not> resolved g" by blast
  show ?thesis
    unfolding m(1) process_message_move [OF r m(2)]
    by (simp add: Let_def split: sum.splits option.splits prod.splits)
next
  case False
  then have "resolved g \<or> \<not> (\<exists>m. msg = Some m \<and> take 1 m \<in> set RPS)" by blast
  then show ?thesis
    by (auto simp add: process_message_resolved process_message_no_move)
qed

lemma round_body_not_waiting: "round_body td g p \<noteq> Waiting x"
proof -
  obtain message fx where pm: "parse_message (round_number g) (received p) = (message, fx)"
    by (cases "parse_message (round_number g) (received p)")
  show ?thesis
    using process_message_not_waiting [of "g\<lparr>trace := trace g @ fx\<rparr>" message]
    by (simp add: round_body_def pm split: outcome.splits)
qed

lemma round_loop_snoc:
  "round_loop td g (ps @ [p]) =
     (case round_loop td g ps of
        Waiting g1 \<Rightarrow> (case round_body td g1 p of Next g2 \<Rightarrow> round_loop td g2 [] | other \<Rightarrow> other)
      | other \<Rightarrow> other)"
proof (induction ps arbitrary: g)
  case Nil
  then show ?case by simp
next
  case (Cons q ps)
  then show ?case
    by (cases "round_body td g q") (simp_all add: round_body_not_waiting)
qed

lemma round_body_ack_again:
  "acknowledged h \<Longrightarrow> received q = Some (CHR ''X'' # py_str (round_number h)) \<Longrightarrow>
     round_body td h q = Next h"
proof -
  assume a: "acknowledged h" and q: "received q = Some (CHR ''X'' # py_str (round_number h))"
  have x: "[CHR ''X''] \<notin> set RPS" by (simp add: RPS_def)
  have "\<exists>res. parse_message (round_number h) (received q) = (res, [])"
    unfolding q by (simp add: parse_message_def RPS_def)
  then obtain res where pm: "parse_message (round_number h) (received q) = (res, [])" by blast
  have "process_message h res = Next h"
  proof (cases "resolved h")
    case True
    then show ?thesis by (simp add: process_message_resolved a)
  next
    case False
    have "\<not> (\<exists>m. res = Some m \<and> take 1 m \<in> set RPS)"
      using pm unfolding q by (auto simp add: parse_message_def RPS_def split: if_splits)
    then show ?thesis by (simp add: process_message_no_move a)
  qed
  then show ?thesis
    by (simp add: round_body_def pm resend_if_due_def a)
qed

text \<open>
  C1. In a round from 1 to 9 with both moves in \<open>RPS\<close>, let the loop hear the opponent's
  move frame in a pass \<open>p1\<close>, run any further passes \<open>mid\<close> and still be polling, in state
  \<open>g1\<close>. Then \<open>resolve\<close> has returned once (one face shown), \<open>g1\<close> is resolved and its
  scores are those before the round plus the points of \<open>resolve\<close>; a pass \<open>p2\<close> that hears
  the same frame again runs to its end and leaves the scores, the resolved flag and the
  number of faces shown as they are. Likewise a pass that hears the acknowledgement frame of
  the round while \<open>acknowledged\<close> is already true leaves the whole state as it is.
\<close>

theorem duplicate_frames_change_nothing:
  "(choice g \<in> set RPS \<and> m \<in> set RPS
      \<and> 1 \<le> round_number g \<and> round_number g \<le> 9
      \<and> \<not> resolved g
      \<and> received p1 = Some (m @ py_str (round_number g))
      \<and> received p2 = Some (m @ py_str (round_number g))
      \<and> round_loop td g (p1 # mid) = Waiting g1
    \<longrightarrow> (\<exists>f a b. resolve (choice g) m = Inr ([ShowFace f, Sleep 1000], a, b)
          \<and> resolved g1 \<and> your_score g1 = your_score g + a \<and> opp_score g1 = opp_score g + b
          \<and> faces_shown (trace g1) = faces_shown (trace g) @ [f]
          \<and> (\<exists>g2. round_body td g1 p2 = Next g2
                 \<and> round_loop td g (p1 # mid @ [p2]) = round_loop td g2 []
                 \<and> resolved g2 \<and> your_score g2 = your_score g1 \<and> opp_score g2 = opp_score g1
                 \<and> faces_shown (trace g2) = faces_shown (trace g1))))
   \<and> (acknowledged h \<and> received q = Some (CHR ''X'' # py_str (round_number h))
        \<longrightarrow> round_body td h q = Next h)"
proof -
  have move: "\<exists>f a b. resolve (choice g) m = Inr ([ShowFace f, Sleep 1000], a, b)
          \<and> resolved g1 \<and> your_score g1 = your_score g + a \<and> opp_score g1 = opp_score g + b
          \<and> faces_shown (trace g1) = faces_shown (trace g) @ [f]
          \<and> (\<exists>g2. round_body td g1 p2 = Next g2
                 \<and> round_loop td g (p1 # mid @ [p2]) = round_loop td g2 []
                 \<and> resolved g2 \<and> your_score g2 = your_score g1 \<and> opp_score g2 = opp_score g1
                 \<and> faces_shown (trace g2) = faces_shown (trace g1))"
    if as: "choice g \<in> set RPS \<and> m \<in> set RPS
      \<and> 1 \<le> round_number g \<and> round_number g \<le> 9
      \<and> \<not> resolved g
      \<and> received p1 = Some (m @ py_str (round_number g))
      \<and> received p2 = Some (m @ py_str (round_number g))
      \<and> round_loop td g (p1 # mid) = Waiting g1"
  proof -
    from as have c: "choice g \<in> set RPS" and m: "m \<in> set RPS"
      and lo: "1 \<le> round_number g" and hi: "round_number g \<le> 9" and nr: "\<not> resolved g"
      and r1: "received p1 = Some (m @ py_str (round_number g))"
      and lw: "round_loop td g (p1 # mid) = Waiting g1"
      by blast+
    from lo hi obtain d where d: "py_str (round_number g) = [d]"
      by (simp add: py_str_one_digit)
    have p1: "received p1 = Some (m @ [d])" using r1 d by simp
    from round_body_move [OF nr c m d p1, of td] obtain f a b where
      res: "resolve (choice g) m = Inr ([ShowFace f, Sleep 1000], a, b)"
      and sh: "(\<exists>msg. round_body td g p1 = Halted msg (state_of (round_body td g p1)))
                 \<or> round_body td g p1 = Next (state_of (round_body td g p1))"
      and st: "resolved (state_of (round_body td g p1))"
        "your_score (state_of (round_body td g p1)) = your_score g + a"
        "opp_score (state_of (round_body td g p1)) = opp_score g + b"
        "faces_shown (trace (state_of (round_body td g p1))) = faces_shown (trace g) @ [f]"
      by blast
    define g' where "g' = state_of (round_body td g p1)"
    have nx: "round_body td g p1 = Next g'" and lp: "round_loop td g' mid = Waiting g1"
      using sh lw nr unfolding g'_def
      by (auto split: outcome.splits)
    from round_loop_resolved [of g' td mid] st(1) lp have
      g1: "resolved g1" "your_score g1 = your_score g'" "opp_score g1 = opp_score g'"
          "faces_shown (trace g1) = faces_shown (trace g')"
      by (simp_all add: g'_def)
    from round_body_resolved [OF g1(1), of td p2] obtain g2 where
      g2: "round_body td g1 p2 = Next g2" "resolved g2" "your_score g2 = your_score g1"
          "opp_score g2 = opp_score g1" "faces_shown (trace g2) = faces_shown (trace g1)"
      by blast
    have "round_loop td g ((p1 # mid) @ [p2]) = round_loop td g2 []"
      unfolding round_loop_snoc lw by (simp add: g2(1))
    then have run: "round_loop td g (p1 # mid @ [p2]) = round_loop td g2 []" by simp
    from res g1 st g2 run show ?thesis
      unfolding g'_def by auto
  qed
  have ack: "round_body td h q = Next h"
    if "acknowledged h \<and> received q = Some (CHR ''X'' # py_str (round_number h))"
    using that by (auto intro: round_body_ack_again)
  show ?thesis by (rule conjI [OF impI [OF move] impI [OF ack]])
qed

theorem duplicate_frames_change_nothing_witness:
  "choice (in_round 1 ''R'' 0 0) \<in> set RPS \<and> ''S'' \<in> set RPS
   \<and> \<not> resolved (in_round 1 ''R'' 0 0)
   \<and> received (heard (Some ''S1'') 100) = Some (''S'' @ py_str (round_number (in_round 1 ''R'' 0 0)))
   \<and> (\<exists>g1. round_loop plain_diff (in_round 1 ''R'' 0 0) [heard (Some ''S1'') 100, heard None 200]
            = Waiting g1
         \<and> resolved g1 \<and> your_score g1 = 1 \<and> opp_score g1 = 0
         \<and> faces_shown (trace g1) = [HAPPY]
         \<and> (\<exists>g2. round_body plain_diff g1 (heard (Some ''S1'') 300) = Next g2
               \<and> resolved g2 \<and> your_score g2 = 1 \<and> opp_score g2 = 0
               \<and> faces_shown (trace g2) = [HAPPY]))
   \<and> acknowledged ((in_round 1 ''R'' 0 0)\<lparr>acknowledged := True\<rparr>)
   \<and> round_body plain_diff ((in_round 1 ''R'' 0 0)\<lparr>acknowledged := True\<rparr>) (heard (Some ''X1'') 400)
       = Next ((in_round 1 ''R'' 0 0)\<lparr>acknowledged := True\<rparr>)"
proof -
  let ?g = "in_round 1 ''R'' 0 0"
  let ?h = "?g\<lparr>acknowledged := True\<rparr>"
  have c: "choice ?g \<in> set RPS" and m: "''S'' \<in> set RPS"
    and lo: "1 \<le> round_number ?g" and hi: "round_number ?g \<le> 9" and nr: "\<not> resolved ?g"
    by (simp_all add: in_round_def RPS_def)
  have p1: "received (heard (Some ''S1'') 100) = Some (''S'' @ py_str (round_number ?g))"
    and p2: "received (heard (Some ''S1'') 300) = Some (''S'' @ py_str (round_number ?g))"
    by (simp_all add: run_unfold)
  have "\<exists>g1. round_loop plain_diff ?g [heard (Some ''S1'') 100, heard None 200] = Waiting g1"
    by (simp add: run_unfold)
  then obtain g1 where
    lp: "round_loop plain_diff ?g (heard (Some ''S1'') 100 # [heard None 200]) = Waiting g1"
    by auto
  have ah: "acknowledged ?h" by simp
  have q: "received (heard (Some ''X1'') 400) = Some (CHR ''X'' # py_str (round_number ?h))"
    by (simp add: run_unfold)
  have r: "resolve (choice ?g) ''S'' = Inr ([ShowFace HAPPY, Sleep 1000], 1, 0)"
    by (simp add: run_unfold)
  have z: "your_score ?g = 0" "opp_score ?g = 0" "faces_shown (trace ?g) = []"
    by (simp_all add: in_round_def)
  note T = duplicate_frames_change_nothing [where g = ?g and m = "''S''" and td = plain_diff
      and ?p1.0 = "heard (Some ''S1'') 100" and ?p2.0 = "heard (Some ''S1'') 300"
      and mid = "[heard None 200]" and ?g1.0 = g1 and h = ?h and q = "heard (Some ''X1'') 400"]
  have hyp: "choice ?g \<in> set RPS \<and> ''S'' \<in> set RPS
      \<and> 1 \<le> round_number ?g \<and> round_number ?g \<le> 9
      \<and> \<not> resolved ?g
      \<and> received (heard (Some ''S1'') 100) = Some (''S'' @ py_str (round_number ?g))
      \<and> received (heard (Some ''S1'') 300) = Some (''S'' @ py_str (round_number ?g))
      \<and> round_loop plain_diff ?g (heard (Some ''S1'') 100 # [heard None 200]) = Waiting g1"
    using c m lo hi nr p1 p2 lp by (intro conjI)
  from T [THEN conjunct1, THEN mp, OF hyp]
  have A: "resolved g1 \<and> your_score g1 = 1 \<and> opp_score g1 = 0
         \<and> faces_shown (trace g1) = [HAPPY]
         \<and> (\<exists>g2. round_body plain_diff g1 (heard (Some ''S1'') 300) = Next g2
               \<and> resolved g2 \<and> your_score g2 = 1 \<and> opp_score g2 = 0
               \<and> faces_shown (trace g2) = [HAPPY])"
    unfolding r z by auto
  from T [THEN conjunct2, THEN mp, OF conjI [OF ah q]]
  have B: "round_body plain_diff ?h (heard (Some ''X1'') 400) = Next ?h" .
  from c m nr p1 lp ah A B show ?thesis by auto
qed

section \<open>Resending the move\<close>

lemma parse_message_acks:
  "set (radio_out (snd (parse_message rn rx))) \<subseteq> {CHR ''X'' # py_str rn}"
  using parse_message_fx [of rn rx] by auto

lemma round_body_radio_any:
  "radio_out (trace (state_of (round_body td g p))) =
     radio_out (trace g) @ radio_out (snd (parse_message (round_number g) (received p))) @
       (if (\<exists>g'. round_body td g p = Next g') \<and> \<not> acknowledged (state_of (round_body td g p))
           \<and> td (current_time p) (send_time g) > 2000
        then [choice g @ py_str (round_number g)] else [])
   \<and> send_time (state_of (round_body td g p)) =
       (if (\<exists>g'. round_body td g p = Next g') \<and> \<not> acknowledged (state_of (round_body td g p))
           \<and> td (current_time p) (send_time g) > 2000
        then resend_time p else send_time g)"
proof (cases "\<exists>g'. round_body td g p = Next g'")
  case True
  then obtain g' where g': "round_body td g p = Next g'" by blast
  from round_body_radio [OF g'] show ?thesis by (simp add: g')
next
  case False
  obtain message fx where pm: "parse_message (round_number g) (received p) = (message, fx)"
    by (cases "parse_message (round_number g) (received p)")
  define g0 where "g0 = g\<lparr>trace := trace g @ fx\<rparr>"
  have rb: "round_body td g p =
      (case process_message g0 message of Next g1 \<Rightarrow> Next (resend_if_due td g1 p) | other \<Rightarrow> other)"
    by (simp add: round_body_def pm g0_def)
  have f: "send_time g0 = send_time g"
    "radio_out (trace g0) = radio_out (trace g) @ radio_out fx"
    by (simp_all add: g0_def radio_out_append)
  from False rb have same: "round_body td g p = process_message g0 message"
    by (cases "process_message g0 message") simp_all
  from process_message_frame [of g0 message] show ?thesis
    using False unfolding same f by (simp add: pm)
qed

lemma round_loop_frame:
  "round_number (state_of (round_loop td g ps)) = round_number g
   \<and> choice (state_of (round_loop td g ps)) = choice g
   \<and> (acknowledged g \<longrightarrow> acknowledged (state_of (round_loop td g ps)))
   \<and> (resolved g \<longrightarrow> resolved (state_of (round_loop td g ps)))"
proof (induction ps arbitrary: g)
  case Nil
  then show ?case by simp
next
  case (Cons p ps)
  show ?case
  proof (cases "acknowledged g \<and> resolved g")
    case True
    then show ?thesis by simp
  next
    case False
    show ?thesis
    proof (cases "round_body td g p")
      case (Next g1)
      with round_body_frame [of td g p] Cons.IH [of g1] False show ?thesis by simp
    qed (use round_body_frame [of td g p] False in simp_all)
  qed
qed

lemma round_loop_acknowledged:
  "acknowledged g \<Longrightarrow>
     send_time (state_of (round_loop td g ps)) = send_time g
     \<and> (\<exists>acks. radio_out (trace (state_of (round_loop td g ps))) = radio_out (trace g) @ acks
           \<and> set acks \<subseteq> {CHR ''X'' # py_str (round_number g)})"
proof (induction ps arbitrary: g)
  case Nil
  then show ?case by simp
next
  case (Cons p ps)
  define out where "out = round_body td g p"
  have a1: "acknowledged (state_of out)"
    using round_body_frame [of td g p] Cons.prems by (simp add: out_def)
  have rn: "round_number (state_of out) = round_number g"
    using round_body_frame [of td g p] by (simp add: out_def)
  from round_body_radio_any [of td g p] a1 have
    r: "radio_out (trace (state_of out)) =
          radio_out (trace g) @ radio_out (snd (parse_message (round_number g) (received p)))"
    and s: "send_time (state_of out) = send_time g"
    by (simp_all add: out_def)
  show ?case
  proof (cases "acknowledged g \<and> resolved g")
    case True
    then show ?thesis by simp
  next
    case False
    show ?thesis
    proof (cases out)
      case (Next g1)
      from Cons.IH [of g1] a1 Next obtain acks where
        k: "send_time (state_of (round_loop td g1 ps)) = send_time g1"
           "radio_out (trace (state_of (round_loop td g1 ps))) = radio_out (trace g1) @ acks"
           "set acks \<subseteq> {CHR ''X'' # py_str (round_number g1)}"
        by auto
      have "set (radio_out (snd (parse_message (round_number g) (received p))) @ acks)
              \<subseteq> {CHR ''X'' # py_str (round_number g)}"
        using parse_message_acks [of "round_number g" "received p"] k(3) rn Next by auto
      then show ?thesis
        using False Next k r s by (simp add: out_def [symmetric])
    next
      case (Waiting x)
      then show ?thesis using round_body_not_waiting [of td g p] by (simp add: out_def)
    next
      case (Halted msg x)
      then show ?thesis
        using False r s parse_message_acks [of "round_number g" "received p"]
        by (simp add: out_def [symmetric])
    next
      case (Raised e x)
      then show ?thesis
        using False r s parse_message_acks [of "round_number g" "received p"]
        by (simp add: out_def [symmetric])
    qed
  qed
qed

lemma round_loop_radio:
  "\<exists>sent. radio_out (trace (state_of (round_loop td g ps))) = radio_out (trace g) @ sent
      \<and> set sent \<subseteq> {choice g @ py_str (round_number g), CHR ''X'' # py_str (round_number g)}"
proof (induction ps arbitrary: g)
  case Nil
  then show ?case by simp
next
  case (Cons p ps)
  define out where "out = round_body td g p"
  define one where "one = radio_out (snd (parse_message (round_number g) (received p))) @
       (if (\<exists>g'. round_body td g p = Next g') \<and> \<not> acknowledged (state_of (round_body td g p))
           \<and> td (current_time p) (send_time g) > 2000
        then [choice g @ py_str (round_number g)] else [])"
  have r: "radio_out (trace (state_of out)) = radio_out (trace g) @ one"
    using round_body_radio_any [of td g p] by (simp add: out_def one_def)
  have o: "set one \<subseteq> {choice g @ py_str (round_number g), CHR ''X'' # py_str (round_number g)}"
    using parse_message_acks [of "round_number g" "received p"] by (auto simp add: one_def)
  have fr: "round_number (state_of out) = round_number g" "choice (state_of out) = choice g"
    using round_body_frame [of td g p] by (simp_all add: out_def)
  show ?case
  proof (cases "acknowledged g \<and> resolved g")
    case True
    then show ?thesis by simp
  next
    case False
    show ?thesis
    proof (cases out)
      case (Next g1)
      from Cons.IH [of g1] obtain sent where
        k: "radio_out (trace (state_of (round_loop td g1 ps))) = radio_out (trace g1) @ sent"
           "set sent \<subseteq> {choice g1 @ py_str (round_number g1), CHR ''X'' # py_str (round_number g1)}"
        by blast
      have "set (one @ sent) \<subseteq> {choice g @ py_str (round_number g), CHR ''X'' # py_str (round_number g)}"
        using o k(2) fr Next by auto
      then show ?thesis
        using False Next k(1) r by (simp add: out_def [symmetric])
    next
      case (Waiting x)
      then show ?thesis using round_body_not_waiting [of td g p] by (simp add: out_def)
    next
      case (Halted msg x)
      then show ?thesis using False r o by (simp add: out_def [symmetric])
    next
      case (Raised e x)
      then show ?thesis using False r o by (simp add: out_def [symmetric])
    qed
  qed
qed

lemma choose_play_loop_radio:
  "radio_out (snd (choose_play_loop num play bs tr)) = radio_out tr"
  by (induction num play bs tr rule: choose_play_loop.induct)
     (simp_all add: Let_def radio_out_append)

lemma choose_play_radio: "radio_out (snd (choose_play bs)) = []"
  by (simp add: choose_play_def choose_play_loop_radio)

lemma play_round_radio:
  assumes "choose_play (presses env) = (Some c, fx)"
  shows "\<exists>rest. radio_out (trace (state_of (play_round td g env))) =
            radio_out (trace g) @ (c @ py_str (round_number g)) # rest
      \<and> set rest \<subseteq> {c @ py_str (round_number g), CHR ''X'' # py_str (round_number g)}"
proof -
  define g1 where "g1 = g\<lparr>choice := c, send_time := sent_time env, acknowledged := False,
      resolved := False,
      trace := (trace g @ [Scroll (''Round: '' @ py_str (round_number g)),
                           Scroll (''Your Score: '' @ py_str (your_score g))])
               @ fx @ [RadioSend (c @ py_str (round_number g))] @ [ShowClocks]\<rparr>"
  have fxr: "radio_out fx = []" using choose_play_radio [of "presses env"] assms by simp
  have pr: "play_round td g env =
      (case round_loop td g1 (polls env) of
         Next g2 \<Rightarrow> Next (g2\<lparr>round_number := round_number g2 + 1\<rparr>) | other \<Rightarrow> other)"
    by (simp add: play_round_def assms send_choice_def g1_def)
  have tr: "trace (state_of (play_round td g env)) = trace (state_of (round_loop td g1 (polls env)))"
    unfolding pr by (cases "round_loop td g1 (polls env)") simp_all
  have r1: "radio_out (trace g1) = radio_out (trace g) @ [c @ py_str (round_number g)]"
    by (simp add: g1_def radio_out_append fxr)
  have f1: "choice g1 = c" "round_number g1 = round_number g" by (simp_all add: g1_def)
  from round_loop_radio [of td g1 "polls env"] show ?thesis
    unfolding tr r1 f1 by simp
qed

text \<open>How a round enters its loop, and how one more pass extends a run of the round.\<close>

lemma play_round_enter:
  assumes "choose_play (presses env) = (Some c, fx)"
  shows "\<exists>G0. send_time G0 = sent_time env \<and> \<not> acknowledged G0 \<and> \<not> resolved G0
      \<and> choice G0 = c \<and> round_number G0 = round_number g
      \<and> your_score G0 = your_score g \<and> opp_score G0 = opp_score g
      \<and> radio_out (trace G0) = radio_out (trace g) @ [c @ py_str (round_number g)]
      \<and> (\<forall>ps. play_round td g (env\<lparr>polls := ps\<rparr>) =
            (case round_loop td G0 ps of
               Next g2 \<Rightarrow> Next (g2\<lparr>round_number := round_number g2 + 1\<rparr>)
             | other \<Rightarrow> other))"
proof -
  define G0 where "G0 = g\<lparr>choice := c, send_time := sent_time env, acknowledged := False,
      resolved := False,
      trace := (trace g @ [Scroll (''Round: '' @ py_str (round_number g)),
                           Scroll (''Your Score: '' @ py_str (your_score g))])
               @ fx @ [RadioSend (c @ py_str (round_number g))] @ [ShowClocks]\<rparr>"
  have fxr: "radio_out fx = []" using choose_play_radio [of "presses env"] assms by simp
  have pr: "play_round td g (env\<lparr>polls := ps\<rparr>) =
      (case round_loop td G0 ps of
         Next g2 \<Rightarrow> Next (g2\<lparr>round_number := round_number g2 + 1\<rparr>) | other \<Rightarrow> other)" for ps
    by (simp add: play_round_def assms send_choice_def G0_def)
  have f: "send_time G0 = sent_time env" "\<not> acknowledged G0" "\<not> resolved G0"
    "choice G0 = c" "round_number G0 = round_number g"
    "your_score G0 = your_score g" "opp_score G0 = opp_score g"
    "radio_out (trace G0) = radio_out (trace g) @ [c @ py_str (round_number g)]"
    by (simp_all add: G0_def radio_out_append fxr)
  from f pr show ?thesis by blast
qed

lemma play_round_extend:
  assumes cp: "choose_play (presses env) = (Some c, fx)"
    and w: "play_round td g (env\<lparr>polls := ps\<rparr>) = Waiting G"
  shows "play_round td g (env\<lparr>polls := ps @ [p]\<rparr>) =
     (case round_body td G p of
        Next G' \<Rightarrow> (if acknowledged G' \<and> resolved G'
                     then Next (G'\<lparr>round_number := round_number G' + 1\<rparr>) else Waiting G')
      | other \<Rightarrow> other)"
proof -
  from play_round_enter [OF cp, of g td] obtain G0 where
    pr: "\<And>qs. play_round td g (env\<lparr>polls := qs\<rparr>) =
            (case round_loop td G0 qs of
               Next g2 \<Rightarrow> Next (g2\<lparr>round_number := round_number g2 + 1\<rparr>)
             | other \<Rightarrow> other)"
    by blast
  from w have lw: "round_loop td G0 ps = Waiting G"
    unfolding pr by (cases "round_loop td G0 ps") simp_all
  show ?thesis
    unfolding pr round_loop_snoc lw
    by (cases "round_body td G p") (simp_all add: round_body_not_waiting)
qed

lemma play_round_first_pass:
  assumes cp: "choose_play (presses env) = (Some c, fx)"
  shows "\<exists>acks. set acks \<subseteq> {CHR ''X'' # py_str (round_number g)}
     \<and> radio_out (trace (state_of (play_round td g (env\<lparr>polls := [q]\<rparr>)))) =
         radio_out (trace g) @ (c @ py_str (round_number g)) # acks @
           (if (\<exists>G'. play_round td g (env\<lparr>polls := [q]\<rparr>) = Waiting G' \<and> \<not> acknowledged G')
               \<and> 2000 < td (current_time q) (sent_time env)
            then [c @ py_str (round_number g)] else [])"
proof -
  from play_round_enter [OF cp, of g td] obtain G0 where
    f: "send_time G0 = sent_time env" "\<not> acknowledged G0" "\<not> resolved G0"
       "choice G0 = c" "round_number G0 = round_number g"
       "radio_out (trace G0) = radio_out (trace g) @ [c @ py_str (round_number g)]"
    and pr: "\<And>ps. play_round td g (env\<lparr>polls := ps\<rparr>) =
            (case round_loop td G0 ps of
               Next g2 \<Rightarrow> Next (g2\<lparr>round_number := round_number g2 + 1\<rparr>)
             | other \<Rightarrow> other)"
    by blast
  have w0: "play_round td g (env\<lparr>polls := []\<rparr>) = Waiting G0"
    unfolding pr using f(2) by simp
  from play_round_extend [OF cp w0, of q] have
    e: "play_round td g (env\<lparr>polls := [q]\<rparr>) =
     (case round_body td G0 q of
        Next G' \<Rightarrow> (if acknowledged G' \<and> resolved G'
                     then Next (G'\<lparr>round_number := round_number G' + 1\<rparr>) else Waiting G')
      | other \<Rightarrow> other)"
    by simp
  define acks where "acks = radio_out (snd (parse_message (round_number G0) (received q)))"
  have a: "set acks \<subseteq> {CHR ''X'' # py_str (round_number g)}"
    using parse_message_acks [of "round_number G0" "received q"] by (simp add: acks_def f(5))
  have tr: "trace (state_of (play_round td g (env\<lparr>polls := [q]\<rparr>))) =
      trace (state_of (round_body td G0 q))"
    unfolding e by (cases "round_body td G0 q") simp_all
  have cond: "(\<exists>G'. play_round td g (env\<lparr>polls := [q]\<rparr>) = Waiting G' \<and> \<not> acknowledged G')
      = ((\<exists>G'. round_body td G0 q = Next G') \<and> \<not> acknowledged (state_of (round_body td G0 q)))"
    unfolding e by (cases "round_body td G0 q") (auto simp add: round_body_not_waiting)
  from round_body_radio_any [of td G0 q] have
    "radio_out (trace (state_of (round_body td G0 q))) =
       (radio_out (trace g) @ [c @ py_str (round_number g)]) @ acks @
       (if (\<exists>G'. round_body td G0 q = Next G') \<and> \<not> acknowledged (state_of (round_body td G0 q))
           \<and> 2000 < td (current_time q) (sent_time env)
        then [c @ py_str (round_number g)] else [])"
    unfolding f acks_def by blast
  then have "radio_out (trace (state_of (play_round td g (env\<lparr>polls := [q]\<rparr>)))) =
         radio_out (trace g) @ (c @ py_str (round_number g)) # acks @
           (if (\<exists>G'. play_round td g (env\<lparr>polls := [q]\<rparr>) = Waiting G' \<and> \<not> acknowledged G')
               \<and> 2000 < td (current_time q) (sent_time env)
            then [c @ py_str (round_number g)] else [])"
    unfolding tr cond by simp
  with a show ?thesis by blast
qed

lemma play_round_start:
  assumes cp: "choose_play (presses env) = (Some c, fx)"
  shows "\<exists>G0. play_round td g (env\<lparr>polls := []\<rparr>) = Waiting G0
      \<and> send_time G0 = sent_time env \<and> \<not> acknowledged G0 \<and> \<not> resolved G0
      \<and> choice G0 = c \<and> round_number G0 = round_number g
      \<and> radio_out (trace G0) = radio_out (trace g) @ [c @ py_str (round_number g)]"
proof -
  from play_round_enter [OF cp, of g td] obtain G0 where
    f: "send_time G0 = sent_time env" "\<not> acknowledged G0" "\<not> resolved G0"
       "choice G0 = c" "round_number G0 = round_number g"
       "radio_out (trace G0) = radio_out (trace g) @ [c @ py_str (round_number g)]"
    and pr: "\<And>ps. play_round td g (env\<lparr>polls := ps\<rparr>) =
            (case round_loop td G0 ps of
               Next g2 \<Rightarrow> Next (g2\<lparr>round_number := round_number g2 + 1\<rparr>)
             | other \<Rightarrow> other)"
    by blast
  have "play_round td g (env\<lparr>polls := []\<rparr>) = Waiting G0"
    unfolding pr using f(2) by simp
  with f show ?thesis by blast
qed

text \<open>
  C9. A round enters its loop right after the first transmission: the state there has the
  clock reading of that transmission as send time, \<open>acknowledged\<close> and \<open>resolved\<close> false, and
  the move frame as the one frame sent; every further pass of the round is \<open>round_body\<close>
  on the state the passes so far have left. One pass sends, after the acknowledgements of
  \<open>parse_message\<close>, the move frame \<open>choice\<close> and round digit exactly when it runs to its end
  with \<open>acknowledged\<close> false and \<open>ticks_diff\<close> of the clock and the send time above 2000,
  and then the send time becomes the clock reading of the resend; otherwise the send time
  stays. So the send time is always the clock reading of the last send of the round, and in
  the first pass it is that of the first transmission. Move and round number never change
  in a pass. From a state with \<open>acknowledged\<close> true, however many passes follow,
  \<open>acknowledged\<close> stays true, the send time stays and every frame sent is the
  acknowledgement of the round, never the move frame. Over a whole round the first frame sent
  is the move frame and every later frame is that same frame or the acknowledgement.
\<close>

theorem resend_policy:
  "(\<exists>acks. set acks \<subseteq> {CHR ''X'' # py_str (round_number g)}
       \<and> radio_out (trace (state_of (round_body td g p))) =
           radio_out (trace g) @ acks @
             (if (\<exists>g'. round_body td g p = Next g')
                 \<and> \<not> acknowledged (state_of (round_body td g p))
                 \<and> 2000 < td (current_time p) (send_time g)
              then [choice g @ py_str (round_number g)] else [])
       \<and> send_time (state_of (round_body td g p)) =
           (if (\<exists>g'. round_body td g p = Next g')
               \<and> \<not> acknowledged (state_of (round_body td g p))
               \<and> 2000 < td (current_time p) (send_time g)
            then resend_time p else send_time g)
       \<and> choice (state_of (round_body td g p)) = choice g
       \<and> round_number (state_of (round_body td g p)) = round_number g)
   \<and> (acknowledged h \<longrightarrow>
        acknowledged (state_of (round_loop td h ps))
        \<and> send_time (state_of (round_loop td h ps)) = send_time h
        \<and> (\<exists>acks. radio_out (trace (state_of (round_loop td h ps))) = radio_out (trace h) @ acks
              \<and> set acks \<subseteq> {CHR ''X'' # py_str (round_number h)}
              \<and> (choice h \<in> set RPS \<longrightarrow> choice h @ py_str (round_number h) \<notin> set acks)))
   \<and> (choose_play (presses env) = (Some c, fx) \<longrightarrow>
        (\<exists>rest. radio_out (trace (state_of (play_round td g0 env))) =
                  radio_out (trace g0) @ (c @ py_str (round_number g0)) # rest
           \<and> set rest \<subseteq> {c @ py_str (round_number g0), CHR ''X'' # py_str (round_number g0)})
        \<and> (\<exists>G0. play_round td g0 (env\<lparr>polls := []\<rparr>) = Waiting G0
              \<and> send_time G0 = sent_time env \<and> \<not> acknowledged G0 \<and> \<not> resolved G0
              \<and> choice G0 = c \<and> round_number G0 = round_number g0
              \<and> radio_out (trace G0) = radio_out (trace g0) @ [c @ py_str (round_number g0)])
        \<and> (play_round td g0 (env\<lparr>polls := qs\<rparr>) = Waiting G \<longrightarrow>
              play_round td g0 (env\<lparr>polls := qs @ [q]\<rparr>) =
                (case round_body td G q of
                   Next G' \<Rightarrow> (if acknowledged G' \<and> resolved G'
                                then Next (G'\<lparr>round_number := round_number G' + 1\<rparr>)
                                else Waiting G')
                 | other \<Rightarrow> other))
        \<and> (\<exists>acks. set acks \<subseteq> {CHR ''X'' # py_str (round_number g0)}
              \<and> radio_out (trace (state_of (play_round td g0 (env\<lparr>polls := [q]\<rparr>)))) =
                  radio_out (trace g0) @ (c @ py_str (round_number g0)) # acks @
                    (if (\<exists>G'. play_round td g0 (env\<lparr>polls := [q]\<rparr>) = Waiting G'
                           \<and> \<not> acknowledged G')
                        \<and> 2000 < td (current_time q) (sent_time env)
                     then [c @ py_str (round_number g0)] else [])))"
proof -
  have A: "\<exists>acks. set acks \<subseteq> {CHR ''X'' # py_str (round_number g)}
       \<and> radio_out (trace (state_of (round_body td g p))) =
           radio_out (trace g) @ acks @
             (if (\<exists>g'. round_body td g p = Next g')
                 \<and> \<not> acknowledged (state_of (round_body td g p))
                 \<and> 2000 < td (current_time p) (send_time g)
              then [choice g @ py_str (round_number g)] else [])
       \<and> send_time (state_of (round_body td g p)) =
           (if (\<exists>g'. round_body td g p = Next g')
               \<and> \<not> acknowledged (state_of (round_body td g p))
               \<and> 2000 < td (current_time p) (send_time g)
            then resend_time p else send_time g)
       \<and> choice (state_of (round_body td g p)) = choice g
       \<and> round_number (state_of (round_body td g p)) = round_number g"
    using round_body_radio_any [of td g p] round_body_frame [of td g p]
      parse_message_acks [of "round_number g" "received p"]
    by (intro exI [of _ "radio_out (snd (parse_message (round_number g) (received p)))"]) simp
  have B: "acknowledged (state_of (round_loop td h ps))
        \<and> send_time (state_of (round_loop td h ps)) = send_time h
        \<and> (\<exists>acks. radio_out (trace (state_of (round_loop td h ps))) = radio_out (trace h) @ acks
              \<and> set acks \<subseteq> {CHR ''X'' # py_str (round_number h)}
              \<and> (choice h \<in> set RPS \<longrightarrow> choice h @ py_str (round_number h) \<notin> set acks))"
    if a: "acknowledged h"
  proof -
    from round_loop_acknowledged [OF a, of td ps] obtain acks where
      k: "send_time (state_of (round_loop td h ps)) = send_time h"
         "radio_out (trace (state_of (round_loop td h ps))) = radio_out (trace h) @ acks"
         "set acks \<subseteq> {CHR ''X'' # py_str (round_number h)}"
      by blast
    have ak: "acknowledged (state_of (round_loop td h ps))"
      using round_loop_frame [of td h ps] a by simp
    have "choice h @ py_str (round_number h) \<notin> set acks" if c: "choice h \<in> set RPS"
    proof
      assume "choice h @ py_str (round_number h) \<in> set acks"
      with k(3) have "choice h @ py_str (round_number h) = [CHR ''X''] @ py_str (round_number h)"
        by auto
      then have "choice h = [CHR ''X'']" by (simp only: append_same_eq)
      with c show False by (simp add: RPS_def)
    qed
    with k ak show ?thesis by blast
  qed
  have C: "(\<exists>rest. radio_out (trace (state_of (play_round td g0 env))) =
                  radio_out (trace g0) @ (c @ py_str (round_number g0)) # rest
           \<and> set rest \<subseteq> {c @ py_str (round_number g0), CHR ''X'' # py_str (round_number g0)})
        \<and> (\<exists>G0. play_round td g0 (env\<lparr>polls := []\<rparr>) = Waiting G0
              \<and> send_time G0 = sent_time env \<and> \<not> acknowledged G0 \<and> \<not> resolved G0
              \<and> choice G0 = c \<and> round_number G0 = round_number g0
              \<and> radio_out (trace G0) = radio_out (trace g0) @ [c @ py_str (round_number g0)])
        \<and> (play_round td g0 (env\<lparr>polls := qs\<rparr>) = Waiting G \<longrightarrow>
              play_round td g0 (env\<lparr>polls := qs @ [q]\<rparr>) =
                (case round_body td G q of
                   Next G' \<Rightarrow> (if acknowledged G' \<and> resolved G'
                                then Next (G'\<lparr>round_number := round_number G' + 1\<rparr>)
                                else Waiting G')
                 | other \<Rightarrow> other))
        \<and> (\<exists>acks. set acks \<subseteq> {CHR ''X'' # py_str (round_number g0)}
              \<and> radio_out (trace (state_of (play_round td g0 (env\<lparr>polls := [q]\<rparr>)))) =
                  radio_out (trace g0) @ (c @ py_str (round_number g0)) # acks @
                    (if (\<exists>G'. play_round td g0 (env\<lparr>polls := [q]\<rparr>) = Waiting G'
                           \<and> \<not> acknowledged G')
                        \<and> 2000 < td (current_time q) (sent_time env)
                     then [c @ py_str (round_number g0)] else []))"
    if cp: "choose_play (presses env) = (Some c, fx)"
  proof (intro conjI impI)
    show "\<exists>rest. radio_out (trace (state_of (play_round td g0 env))) =
                  radio_out (trace g0) @ (c @ py_str (round_number g0)) # rest
           \<and> set rest \<subseteq> {c @ py_str (round_number g0), CHR ''X'' # py_str (round_number g0)}"
      using cp by (rule play_round_radio)
    show "\<exists>G0. play_round td g0 (env\<lparr>polls := []\<rparr>) = Waiting G0
              \<and> send_time G0 = sent_time env \<and> \<not> acknowledged G0 \<and> \<not> resolved G0
              \<and> choice G0 = c \<and> round_number G0 = round_number g0
              \<and> radio_out (trace G0) = radio_out (trace g0) @ [c @ py_str (round_number g0)]"
      using cp by (rule play_round_start)
    show "play_round td g0 (env\<lparr>polls := qs @ [q]\<rparr>) =
                (case round_body td G q of
                   Next G' \<Rightarrow> (if acknowledged G' \<and> resolved G'
                                then Next (G'\<lparr>round_number := round_number G' + 1\<rparr>)
                                else Waiting G')
                 | other \<Rightarrow> other)"
      if "play_round td g0 (env\<lparr>polls := qs\<rparr>) = Waiting G"
      using cp that by (rule play_round_extend)
    show "\<exists>acks. set acks \<subseteq> {CHR ''X'' # py_str (round_number g0)}
              \<and> radio_out (trace (state_of (play_round td g0 (env\<lparr>polls := [q]\<rparr>)))) =
                  radio_out (trace g0) @ (c @ py_str (round_number g0)) # acks @
                    (if (\<exists>G'. play_round td g0 (env\<lparr>polls := [q]\<rparr>) = Waiting G'
                           \<and> \<not> acknowledged G')
                        \<and> 2000 < td (current_time q) (sent_time env)
                     then [c @ py_str (round_number g0)] else [])"
      using cp by (rule play_round_first_pass)
  qed
  show ?thesis by (rule conjI [OF A conjI [OF impI [OF B] impI [OF C]]])
qed

theorem resend_policy_witness:
  "radio_out (trace (state_of (round_body plain_diff (in_round 1 ''R'' 0 0) (heard None 2500))))
     = [''R1'']
   \<and> send_time (state_of (round_body plain_diff (in_round 1 ''R'' 0 0) (heard None 2500))) = 2500
   \<and> acknowledged ((in_round 1 ''R'' 0 0)\<lparr>acknowledged := True\<rparr>)
   \<and> send_time (state_of (round_loop plain_diff ((in_round 1 ''R'' 0 0)\<lparr>acknowledged := True\<rparr>)
        [heard None 2500, heard (Some ''S1'') 5000])) = 0
   \<and> radio_out (trace (state_of (round_loop plain_diff ((in_round 1 ''R'' 0 0)\<lparr>acknowledged := True\<rparr>)
        [heard None 2500, heard (Some ''S1'') 5000]))) = [''X1'']
   \<and> fst (choose_play [(True, True)]) = Some ''R''
   \<and> radio_out (trace (state_of (play_round plain_diff (start [])
        (one_round [(True, True)] [heard None 2500])))) = [''R1'', ''R1'']
   \<and> (\<exists>G0. play_round plain_diff (start [])
               ((one_round [(True, True)] [])\<lparr>sent_time := 60000, polls := []\<rparr>) = Waiting G0
          \<and> send_time G0 = 60000 \<and> radio_out (trace G0) = [''R1''])
   \<and> radio_out (trace (state_of (play_round plain_diff (start [])
        ((one_round [(True, True)] [])\<lparr>sent_time := 60000, polls := [heard None 60001]\<rparr>))))
       = [''R1'']
   \<and> radio_out (trace (state_of (play_round plain_diff (start [])
        ((one_round [(True, True)] [])\<lparr>sent_time := 60000, polls := [heard None 62001]\<rparr>))))
       = [''R1'', ''R1'']
   \<and> radio_out (trace (state_of (play_round plain_diff (start [])
        ((one_round [(True, True)] [])\<lparr>sent_time := 60000,
            polls := [heard None 62001, heard None 62002]\<rparr>))))
       = [''R1'', ''R1'']"
proof -
  let ?g = "in_round 1 ''R'' 0 0"
  let ?h = "?g\<lparr>acknowledged := True\<rparr>"
  let ?p = "heard None 2500"
  let ?ps = "[heard None 2500, heard (Some ''S1'') 5000]"
  let ?env = "one_round [(True, True)] [heard None 2500]"
  let ?late = "(one_round [(True, True)] [])\<lparr>sent_time := 60000\<rparr>"
  obtain fx where cp: "choose_play (presses ?env) = (Some ''R'', fx)"
    by (simp add: one_round_def choose_play_def Let_def)
  then have cl: "choose_play (presses ?late) = (Some ''R'', fx)"
    by (simp add: one_round_def)
  have ah: "acknowledged ?h" by simp
  note T = resend_policy [where g = ?g and td = plain_diff and p = ?p and h = ?h and ps = ?ps
      and env = ?env and c = "''R''" and fx = fx and ?g0.0 = "start []"]
  have e1: "radio_out (trace (state_of (round_body plain_diff ?g ?p))) = [''R1'']"
    and e2: "send_time (state_of (round_body plain_diff ?g ?p)) = 2500"
    by (simp_all add: run_unfold)
  from T ah have "send_time (state_of (round_loop plain_diff ?h ?ps)) = send_time ?h" by blast
  then have e3: "send_time (state_of (round_loop plain_diff ?h ?ps)) = 0"
    by (simp add: in_round_def)
  have e4: "radio_out (trace (state_of (round_loop plain_diff ?h ?ps))) = [''X1'']"
    by (simp add: run_unfold)
  have e5: "fst (choose_play [(True, True)]) = Some ''R''"
    by (simp add: choose_play_def Let_def)
  from T cp obtain rest where
    "radio_out (trace (state_of (play_round plain_diff (start []) ?env))) =
       radio_out (trace (start [])) @ (''R'' @ py_str (round_number (start []))) # rest"
    by blast
  then have e6: "radio_out (trace (state_of (play_round plain_diff (start []) ?env))) = [''R1'', ''R1'']"
    by (simp add: play_round_def one_round_def choose_play_def start_def run_unfold)
  note L = resend_policy [where td = plain_diff and env = ?late and c = "''R''" and fx = fx
      and ?g0.0 = "start []", THEN conjunct2, THEN conjunct2, THEN mp, OF cl]
  from L obtain G0 where
    g0: "play_round plain_diff (start []) (?late\<lparr>polls := []\<rparr>) = Waiting G0"
        "send_time G0 = sent_time ?late"
        "radio_out (trace G0) =
           radio_out (trace (start [])) @ [''R'' @ py_str (round_number (start []))]"
    by blast
  have e7: "\<exists>G0. play_round plain_diff (start [])
               ((one_round [(True, True)] [])\<lparr>sent_time := 60000, polls := []\<rparr>) = Waiting G0
          \<and> send_time G0 = 60000 \<and> radio_out (trace G0) = [''R1'']"
    using g0 by (intro exI [of _ G0]) (simp add: start_def py_str_def dec_digits.simps digit_char_def)
  have e8: "radio_out (trace (state_of (play_round plain_diff (start [])
        ((one_round [(True, True)] [])\<lparr>sent_time := 60000, polls := [heard None 60001]\<rparr>))))
       = [''R1'']"
    and e9: "radio_out (trace (state_of (play_round plain_diff (start [])
        ((one_round [(True, True)] [])\<lparr>sent_time := 60000, polls := [heard None 62001]\<rparr>))))
       = [''R1'', ''R1'']"
    and e10: "radio_out (trace (state_of (play_round plain_diff (start [])
        ((one_round [(True, True)] [])\<lparr>sent_time := 60000,
            polls := [heard None 62001, heard None 62002]\<rparr>))))
       = [''R1'', ''R1'']"
    by (simp_all add: play_round_def one_round_def choose_play_def start_def run_unfold)
  from e1 e2 ah e3 e4 e5 e6 e7 e8 e9 e10 show ?thesis by (intro conjI)
qed

section \<open>The arguments of \<open>resolve\<close>\<close>

text \<open>
  \<open>resolve\<close> raises exactly when one of its arguments is not in \<open>RPS\<close>. The second argument
  in \<open>main\<close> always is; with the first one in \<open>RPS\<close> no pass raises. But \<open>choose_play\<close> starts
  from the empty string and returns it when button B is pressed before button A.
\<close>

lemma py_index_RPS_miss: "x \<notin> set RPS \<Longrightarrow> py_index RPS x = Inl ValueError"
  by (auto simp add: RPS_def py_index_def)

lemma py_index_RPS_hit: "x \<in> set RPS \<Longrightarrow> \<exists>i. py_index RPS x = Inr i"
  by (auto simp add: RPS_def py_index_def)

lemma resolve_raises_iff:
  "(\<exists>e. resolve my opp = Inl e) \<longleftrightarrow> my \<notin> set RPS \<or> opp \<notin> set RPS"
proof (cases "my \<in> set RPS")
  case False
  then have "resolve my opp = Inl ValueError"
    by (simp add: resolve_def py_index_RPS_miss)
  with False show ?thesis by simp
next
  case True
  from py_index_RPS_hit [OF True] obtain i where i: "py_index RPS my = Inr i" by blast
  show ?thesis
  proof (cases "opp \<in> set RPS")
    case False
    then have "resolve my opp = Inl ValueError"
      by (simp add: resolve_def i py_index_RPS_miss)
    with False show ?thesis by simp
  next
    case opp: True
    from resolve_total_precedence_aux [OF True opp] obtain f a b where
      "resolve my opp = Inr ([ShowFace f, Sleep 1000], a, b)" by blast
    with True opp show ?thesis by simp
  qed
qed

lemma choose_play_loop_range:
  "play = [] \<or> play \<in> set RPS \<Longrightarrow> fst (choose_play_loop num play bs tr) = Some c \<Longrightarrow>
     c = [] \<or> c \<in> set RPS"
  by (induction num play bs tr rule: choose_play_loop.induct)
     (auto simp add: Let_def RPS_def split: if_splits)

lemma choose_play_range:
  "fst (choose_play bs) = Some c \<Longrightarrow> c = [] \<or> c \<in> set RPS"
  unfolding choose_play_def by (rule choose_play_loop_range) simp_all

lemma process_message_safe:
  assumes "choice g \<in> set RPS"
  shows "process_message g (fst (parse_message rn rx)) \<noteq> Raised e x"
proof (cases "\<not> resolved g \<and> (\<exists>m. fst (parse_message rn rx) = Some m \<and> take 1 m \<in> set RPS)")
  case True
  then obtain m where m: "fst (parse_message rn rx) = Some m" "take 1 m \<in> set RPS"
    and r: "\<not> resolved g" by blast
  from resolve_total_precedence_aux [OF assms m(2)] obtain f a b where
    "resolve (choice g) (take 1 m) = Inr ([ShowFace f, Sleep 1000], a, b)" by blast
  then show ?thesis
    unfolding m(1) process_message_move [OF r m(2)]
    by (simp add: Let_def split: option.splits)
next
  case False
  then have "resolved g \<or> \<not> (\<exists>m. fst (parse_message rn rx) = Some m \<and> take 1 m \<in> set RPS)"
    by blast
  then show ?thesis
    by (auto simp add: process_message_resolved process_message_no_move)
qed

text \<open>
  C10. The claim is that both arguments of every call of \<open>resolve\<close> in \<open>main\<close> are in \<open>RPS\<close>,
  the first being the result of \<open>choose_play\<close>, so that \<open>resolve\<close> never raises. Run on the
  code: with button B pressed in the first pass of \<open>choose_play\<close>, the move is the empty
  byte string, which is not in \<open>RPS\<close>, and when the opponent's frame \<open>R1\<close> arrives \<open>main\<close>
  ends with \<open>ValueError\<close>, raised by \<open>RPS.index\<close> in \<open>resolve\<close>.
\<close>

theorem unselected_play_raises:
  "fst (choose_play [(False, True)]) = Some []
   \<and> [] \<notin> set RPS
   \<and> resolve [] ''R'' = Inl ValueError
   \<and> (\<exists>g. main td [(False, True), (False, True)]
             [\<lparr>presses = [(False, True)], sent_time = 0,
               polls = [\<lparr>received = Some ''R1'', current_time = 0, resend_time = 0\<rparr>]\<rparr>]
           = Raised ValueError g)"
proof -
  have a: "fst (choose_play [(False, True)]) = Some []"
    by (simp add: choose_play_def Let_def)
  have b: "[] \<notin> set RPS" by (simp add: RPS_def)
  have c: "resolve [] ''R'' = Inl ValueError" by (simp add: resolve_unfold)
  have o: "choose_opponent [(False, True), (False, True)] =
      (Some ''00'', [Sleep 100, ShowStr ''0'', ShowStr ''X'', Sleep 100, ShowStr ''0'', ShowStr ''X'', Clear])"
    by (simp add: choose_opponent_def Let_def hex_last_def)
  have ad: "create_address MYID ''00'' = Inr ''002f''"
    by (simp add: create_address_def MYID_def py_int16_def hex_digit_def py_index_def)
  have d: "\<exists>g. main td [(False, True), (False, True)]
             [\<lparr>presses = [(False, True)], sent_time = 0,
               polls = [\<lparr>received = Some ''R1'', current_time = 0, resend_time = 0\<rparr>]\<rparr>]
           = Raised ValueError g"
    by (simp add: main_def o ad start_def play_round_def choose_play_def Let_def send_choice_def
          round_body_def parse_message_def process_message_def resolve_unfold
          send_acknowledgement_def py_str_def dec_digits.simps digit_char_def)
  from a b c d show ?thesis by (intro conjI)
qed

section \<open>End of the match\<close>

lemma round_body_resolves:
  assumes "\<not> resolved g" and "resolved (state_of (round_body td g p))"
  shows "\<exists>G. round_body td g p =
     (case snd (display_score (your_score G) (opp_score G) (round_number g) 3) of
        Some msg \<Rightarrow> Halted msg G | None \<Rightarrow> Next G)"
  by (rule exI [of _ "state_of (round_body td g p)"]) (rule round_body_just_resolved [OF assms])

lemma display_score_round2:
  "snd (display_score my opp 2 3) =
     (if my = 2 then Some ''You win!!'' else if opp = 2 then Some ''You Lose!'' else None)"
  by (simp add: display_score_def announce_def)

lemma display_score_round3:
  "snd (display_score my opp 3 3) =
     Some (if opp < my then ''You win!!'' else if my < opp then ''You Lose!'' else ''You drew!'')"
  by (simp add: display_score_def announce_def)

lemma round_loop_round3:
  "\<not> resolved g \<Longrightarrow> round_number g = 3 \<Longrightarrow>
     (case round_loop td g ps of Next g' \<Rightarrow> False | Waiting g' \<Rightarrow> \<not> resolved g' | _ \<Rightarrow> True)"
proof (induction ps arbitrary: g)
  case Nil
  then show ?case by simp
next
  case (Cons p ps)
  show ?case
  proof (cases "resolved (state_of (round_body td g p))")
    case True
    from round_body_resolves [OF Cons.prems(1) True] obtain G where
      "round_body td g p =
         (case snd (display_score (your_score G) (opp_score G) (round_number g) 3) of
            Some msg \<Rightarrow> Halted msg G | None \<Rightarrow> Next G)" by blast
    then obtain msg where h: "round_body td g p = Halted msg G"
      by (simp add: Cons.prems(2) display_score_round3)
    show ?thesis using Cons.prems by (simp add: h)
  next
    case False
    have rn: "round_number (state_of (round_body td g p)) = 3"
      using round_body_frame [of td g p] Cons.prems(2) by simp
    show ?thesis
    proof (cases "round_body td g p")
      case (Next g1)
      with False rn Cons.IH [of g1] Cons.prems show ?thesis by simp
    next
      case (Waiting x)
      then show ?thesis by (simp add: round_body_not_waiting)
    qed (use Cons.prems in simp_all)
  qed
qed

lemma play_round_round3:
  assumes "round_number g = 3"
  shows "play_round td g env \<noteq> Next g3"
proof (cases "choose_play (presses env)")
  case (Pair c fx)
  show ?thesis
  proof (cases c)
    case None
    with Pair show ?thesis by (simp add: play_round_def)
  next
    case (Some c')
    define g1 where "g1 = g\<lparr>choice := c', send_time := sent_time env, acknowledged := False,
      resolved := False,
      trace := (trace g @ [Scroll (''Round: '' @ py_str (round_number g)),
                           Scroll (''Your Score: '' @ py_str (your_score g))])
               @ fx @ [RadioSend (c' @ py_str (round_number g))] @ [ShowClocks]\<rparr>"
    have pr: "play_round td g env =
      (case round_loop td g1 (polls env) of
         Next g2 \<Rightarrow> Next (g2\<lparr>round_number := round_number g2 + 1\<rparr>) | other \<Rightarrow> other)"
      by (simp add: play_round_def Pair Some send_choice_def g1_def)
    have "\<not> resolved g1" "round_number g1 = 3" using assms by (simp_all add: g1_def)
    from round_loop_round3 [OF this, of td "polls env"] show ?thesis
      unfolding pr by (cases "round_loop td g1 (polls env)") simp_all
  qed
qed

lemma play_round_next:
  assumes "play_round td g env = Next g3"
  shows "round_number g3 = round_number g + 1"
proof (cases "choose_play (presses env)")
  case (Pair c fx)
  show ?thesis
  proof (cases c)
    case None
    with Pair assms show ?thesis by (simp add: play_round_def)
  next
    case (Some c')
    define g1 where "g1 = g\<lparr>choice := c', send_time := sent_time env, acknowledged := False,
      resolved := False,
      trace := (trace g @ [Scroll (''Round: '' @ py_str (round_number g)),
                           Scroll (''Your Score: '' @ py_str (your_score g))])
               @ fx @ [RadioSend (c' @ py_str (round_number g))] @ [ShowClocks]\<rparr>"
    have pr: "play_round td g env =
      (case round_loop td g1 (polls env) of
         Next g2 \<Rightarrow> Next (g2\<lparr>round_number := round_number g2 + 1\<rparr>) | other \<Rightarrow> other)"
      by (simp add: play_round_def Pair Some send_choice_def g1_def)
    have rn: "round_number (state_of (round_loop td g1 (polls env))) = round_number g"
      using round_loop_frame [of td g1 "polls env"] by (simp add: g1_def)
    from assms rn show ?thesis
      unfolding pr by (cases "round_loop td g1 (polls env)") auto
  qed
qed

text \<open>The points of one round, and the scores and the round number over a whole run.\<close>

lemma resolve_points:
  assumes "resolve my opp = Inr (fx, a, b)"
  shows "(a, b) \<in> {(0, 0), (1, 0), (0, 1)}"
proof -
  from assms have "\<not> (\<exists>e. resolve my opp = Inl e)" by simp
  then have m: "my \<in> set RPS" "opp \<in> set RPS" by (simp_all add: resolve_raises_iff)
  from m assms show ?thesis by (auto simp add: resolve_unfold)
qed

lemma process_message_scores:
  "\<exists>a b. (a, b) \<in> {(0, 0), (1, 0), (0, 1)}
     \<and> your_score (state_of (process_message g msg)) = your_score g + a
     \<and> opp_score (state_of (process_message g msg)) = opp_score g + b
     \<and> (resolved g \<longrightarrow> a = 0 \<and> b = 0)
     \<and> (\<not> resolved (state_of (process_message g msg)) \<longrightarrow> a = 0 \<and> b = 0)"
proof (cases "\<not> resolved g \<and> (\<exists>m. msg = Some m \<and> take 1 m \<in> set RPS)")
  case False
  then have "resolved g \<or> \<not> (\<exists>m. msg = Some m \<and> take 1 m \<in> set RPS)" by blast
  then have "your_score (state_of (process_message g msg)) = your_score g
      \<and> opp_score (state_of (process_message g msg)) = opp_score g"
    by (auto simp add: process_message_resolved process_message_no_move)
  then show ?thesis by (intro exI [of _ 0]) simp
next
  case True
  then obtain m where m: "msg = Some m" "take 1 m \<in> set RPS" and r: "\<not> resolved g" by blast
  show ?thesis
  proof (cases "resolve (choice g) (take 1 m)")
    case (Inl e)
    then have "process_message g msg = Raised e g"
      unfolding m(1) process_message_move [OF r m(2)] by simp
    then show ?thesis by (intro exI [of _ 0]) simp
  next
    case (Inr res)
    obtain fx a b where res: "res = (fx, a, b)" by (cases res)
    from resolve_points [of "choice g" "take 1 m" fx a b] Inr res
    have ab: "(a, b) \<in> {(0, 0), (1, 0), (0, 1)}" by simp
    have "your_score (state_of (process_message g msg)) = your_score g + a
      \<and> opp_score (state_of (process_message g msg)) = opp_score g + b
      \<and> resolved (state_of (process_message g msg))"
      unfolding m(1) process_message_move [OF r m(2)] Inr res
      by (simp add: Let_def split: option.splits)
    with ab r show ?thesis by (intro exI [of _ a] exI [of _ b]) simp
  qed
qed

lemma round_body_scores:
  "\<exists>a b. (a, b) \<in> {(0, 0), (1, 0), (0, 1)}
     \<and> your_score (state_of (round_body td g p)) = your_score g + a
     \<and> opp_score (state_of (round_body td g p)) = opp_score g + b
     \<and> (resolved g \<longrightarrow> a = 0 \<and> b = 0)
     \<and> (\<not> resolved (state_of (round_body td g p)) \<longrightarrow> a = 0 \<and> b = 0)"
proof -
  obtain message fx where pm: "parse_message (round_number g) (received p) = (message, fx)"
    by (cases "parse_message (round_number g) (received p)")
  define g0 where "g0 = g\<lparr>trace := trace g @ fx\<rparr>"
  have rb: "round_body td g p =
      (case process_message g0 message of Next g1 \<Rightarrow> Next (resend_if_due td g1 p) | other \<Rightarrow> other)"
    by (simp add: round_body_def pm g0_def)
  have f: "your_score g0 = your_score g" "opp_score g0 = opp_score g" "resolved g0 = resolved g"
    by (simp_all add: g0_def)
  have same: "your_score (state_of (round_body td g p)) = your_score (state_of (process_message g0 message))"
    "opp_score (state_of (round_body td g p)) = opp_score (state_of (process_message g0 message))"
    "resolved (state_of (round_body td g p)) = resolved (state_of (process_message g0 message))"
    unfolding rb by (cases "process_message g0 message"; simp add: resend_if_due_fields)+
  from process_message_scores [of g0 message] show ?thesis
    unfolding same f .
qed

lemma round_loop_scores:
  "\<exists>a b. (a, b) \<in> {(0, 0), (1, 0), (0, 1)}
     \<and> your_score (state_of (round_loop td g ps)) = your_score g + a
     \<and> opp_score (state_of (round_loop td g ps)) = opp_score g + b
     \<and> (resolved g \<longrightarrow> a = 0 \<and> b = 0)"
proof (induction ps arbitrary: g)
  case Nil
  show ?case by (intro exI [of _ 0]) simp
next
  case (Cons p ps)
  show ?case
  proof (cases "acknowledged g \<and> resolved g")
    case True
    then show ?thesis by (intro exI [of _ 0]) simp
  next
    case False
    from round_body_scores [of td g p] obtain a b where
      ab: "(a, b) \<in> {(0, 0), (1, 0), (0, 1)}"
          "your_score (state_of (round_body td g p)) = your_score g + a"
          "opp_score (state_of (round_body td g p)) = opp_score g + b"
          "resolved g \<longrightarrow> a = 0 \<and> b = 0"
          "\<not> resolved (state_of (round_body td g p)) \<longrightarrow> a = 0 \<and> b = 0"
      by blast
    show ?thesis
    proof (cases "round_body td g p")
      case (Next g1)
      from Cons.IH [of g1] obtain c d where
        cd: "(c, d) \<in> {(0, 0), (1, 0), (0, 1)}"
            "your_score (state_of (round_loop td g1 ps)) = your_score g1 + c"
            "opp_score (state_of (round_loop td g1 ps)) = opp_score g1 + d"
            "resolved g1 \<longrightarrow> c = 0 \<and> d = 0"
        by blast
      have lp: "round_loop td g (p # ps) = round_loop td g1 ps" using False Next by auto
      have g1s: "state_of (round_body td g p) = g1" using Next by simp
      have keep: "resolved g \<longrightarrow> resolved g1"
        using round_body_frame [of td g p] by (simp add: g1s)
      have y: "your_score (state_of (round_loop td g1 ps)) = your_score g + (a + c)"
        and o: "opp_score (state_of (round_loop td g1 ps)) = opp_score g + (b + d)"
        using ab(2,3) cd(2,3) by (simp_all add: g1s)
      have z: "resolved g \<longrightarrow> a + c = 0 \<and> b + d = 0"
        using ab(4) cd(4) keep by simp
      have m: "(a + c, b + d) \<in> {(0, 0), (1, 0), (0, 1)}"
      proof (cases "a = 0 \<and> b = 0")
        case True
        with cd(1) show ?thesis by simp
      next
        case False
        with ab(5) have "resolved g1" by (auto simp add: g1s)
        with cd(4) have "c = 0 \<and> d = 0" by simp
        with ab(1) show ?thesis by simp
      qed
      from m y o z have
        "(a + c, b + d) \<in> {(0, 0), (1, 0), (0, 1)}
         \<and> your_score (state_of (round_loop td g1 ps)) = your_score g + (a + c)
         \<and> opp_score (state_of (round_loop td g1 ps)) = opp_score g + (b + d)
         \<and> (resolved g \<longrightarrow> a + c = 0 \<and> b + d = 0)"
        by (intro conjI)
      then show ?thesis unfolding lp by blast
    next
      case (Waiting x)
      then show ?thesis by (simp add: round_body_not_waiting)
    next
      case (Halted msg x)
      with ab False show ?thesis by (intro exI [of _ a] exI [of _ b]) simp
    next
      case (Raised e x)
      with ab False show ?thesis by (intro exI [of _ a] exI [of _ b]) simp
    qed
  qed
qed

lemma play_round_bounds:
  assumes "well_scored g"
  shows "(\<forall>g'. play_round td g env = Next g' \<longrightarrow> well_scored g')
     \<and> round_number (state_of (play_round td g env)) \<le> 3
     \<and> 1 \<le> round_number (state_of (play_round td g env))
     \<and> 0 \<le> your_score (state_of (play_round td g env))
     \<and> 0 \<le> opp_score (state_of (play_round td g env))
     \<and> your_score (state_of (play_round td g env)) + opp_score (state_of (play_round td g env))
         \<le> round_number (state_of (play_round td g env))"
proof (cases "choose_play (presses env)")
  case (Pair c fx)
  show ?thesis
  proof (cases c)
    case None
    with Pair assms show ?thesis by (simp add: play_round_def well_scored_def)
  next
    case (Some c')
    define g1 where "g1 = g\<lparr>choice := c', send_time := sent_time env, acknowledged := False,
      resolved := False,
      trace := (trace g @ [Scroll (''Round: '' @ py_str (round_number g)),
                           Scroll (''Your Score: '' @ py_str (your_score g))])
               @ fx @ [RadioSend (c' @ py_str (round_number g))] @ [ShowClocks]\<rparr>"
    have pr: "play_round td g env =
      (case round_loop td g1 (polls env) of
         Next g2 \<Rightarrow> Next (g2\<lparr>round_number := round_number g2 + 1\<rparr>) | other \<Rightarrow> other)"
      by (simp add: play_round_def Pair Some send_choice_def g1_def)
    define out where "out = round_loop td g1 (polls env)"
    have rn: "round_number (state_of out) = round_number g"
      using round_loop_frame [of td g1 "polls env"] by (simp add: g1_def out_def)
    from round_loop_scores [of td g1 "polls env"] obtain a b where
      ab: "(a, b) \<in> {(0, 0), (1, 0), (0, 1)}"
          "your_score (state_of out) = your_score g + a"
          "opp_score (state_of out) = opp_score g + b"
      by (auto simp add: g1_def out_def)
    have n3: "round_number g \<noteq> 3" if "out = Next g2" for g2
      using play_round_round3 [of g td env "g2\<lparr>round_number := round_number g2 + 1\<rparr>"] that
      unfolding pr out_def [symmetric] by auto
    show ?thesis
      unfolding pr out_def [symmetric]
      using assms rn ab n3 by (cases out) (auto simp add: well_scored_def)
  qed
qed

lemma main_loop_bounds:
  "well_scored g \<Longrightarrow>
     round_number (state_of (main_loop td g envs)) \<le> 3
     \<and> 1 \<le> round_number (state_of (main_loop td g envs))
     \<and> 0 \<le> your_score (state_of (main_loop td g envs))
     \<and> 0 \<le> opp_score (state_of (main_loop td g envs))
     \<and> your_score (state_of (main_loop td g envs)) + opp_score (state_of (main_loop td g envs))
         \<le> round_number (state_of (main_loop td g envs))"
proof (induction envs arbitrary: g)
  case Nil
  then show ?case by (simp add: well_scored_def)
next
  case (Cons env envs)
  show ?case
  proof (cases "play_round td g env")
    case (Next g1)
    with play_round_bounds [OF Cons.prems, of td env] have "well_scored g1" by simp
    from Cons.IH [OF this] Next show ?thesis by simp
  qed (use play_round_bounds [OF Cons.prems, of td env] in simp_all)
qed

lemma main_bounds:
  "round_number (state_of (main td ob envs)) \<le> 3
   \<and> 1 \<le> round_number (state_of (main td ob envs))
   \<and> 0 \<le> your_score (state_of (main td ob envs))
   \<and> 0 \<le> opp_score (state_of (main td ob envs))
   \<and> your_score (state_of (main td ob envs)) + opp_score (state_of (main td ob envs))
       \<le> round_number (state_of (main td ob envs))"
proof -
  have s: "well_scored (start tr)" for tr by (simp add: well_scored_def start_def)
  have b: "round_number (start tr) = 1 \<and> your_score (start tr) = 0 \<and> opp_score (start tr) = 0" for tr
    by (simp add: start_def)
  show ?thesis
    using main_loop_bounds [OF s, of td] b
    by (simp add: main_def split: prod.splits option.splits sum.splits)
qed

text \<open>When the loop of a round ends, and how.\<close>

lemma round_body_safe:
  assumes "choice g \<in> set RPS"
  shows "round_body td g p \<noteq> Raised e x"
proof -
  obtain message fx where pm: "parse_message (round_number g) (received p) = (message, fx)"
    by (cases "parse_message (round_number g) (received p)")
  define g0 where "g0 = g\<lparr>trace := trace g @ fx\<rparr>"
  have c0: "choice g0 \<in> set RPS" using assms by (simp add: g0_def)
  have m: "message = fst (parse_message (round_number g) (received p))" by (simp add: pm)
  have rb: "round_body td g p =
      (case process_message g0 message of Next g1 \<Rightarrow> Next (resend_if_due td g1 p) | other \<Rightarrow> other)"
    by (simp add: round_body_def pm g0_def)
  from process_message_safe [OF c0, of "round_number g" "received p" e x]
  show ?thesis unfolding rb m by (cases "process_message g0 (fst (parse_message (round_number g) (received p)))") simp_all
qed

lemma round_body_hears_ack:
  assumes "py_str (round_number g) = [d]" and "received p = Some [CHR ''X'', d]"
    and "round_body td g p = Next g1"
  shows "acknowledged g1"
proof -
  have pm: "parse_message (round_number g) (received p) = (Some [CHR ''X'', d], [])"
    unfolding assms(2) by (simp add: parse_message_def RPS_def assms(1))
  have nm: "\<not> (\<exists>m. Some [CHR ''X'', d] = Some m \<and> take 1 m \<in> set RPS)"
    by (simp add: RPS_def)
  have "round_body td g p =
      Next (resend_if_due td (if \<not> acknowledged g then g\<lparr>acknowledged := True\<rparr> else g) p)"
    by (simp add: round_body_def pm process_message_no_move [OF nm])
  with assms(3) show ?thesis by (auto simp add: resend_if_due_fields)
qed

lemma round_body_halted:
  assumes "round_body td g p = Halted msg G"
  shows "snd (display_score (your_score G) (opp_score G) (round_number g) 3) = Some msg"
proof -
  have nr: "\<not> resolved g"
  proof
    assume "resolved g"
    from round_body_resolved [OF this, of td p] assms show False by auto
  qed
  obtain message fx where pm: "parse_message (round_number g) (received p) = (message, fx)"
    by (cases "parse_message (round_number g) (received p)")
  define g0 where "g0 = g\<lparr>trace := trace g @ fx\<rparr>"
  have r0: "\<not> resolved g0" using nr by (simp add: g0_def)
  have f: "round_number g0 = round_number g" by (simp add: g0_def)
  have rb: "round_body td g p =
      (case process_message g0 message of Next g1 \<Rightarrow> Next (resend_if_due td g1 p) | other \<Rightarrow> other)"
    by (simp add: round_body_def pm g0_def)
  show ?thesis
  proof (cases "\<exists>m. message = Some m \<and> take 1 m \<in> set RPS")
    case False
    with assms show ?thesis unfolding rb by (simp add: process_message_no_move)
  next
    case True
    then obtain m where m: "message = Some m" "take 1 m \<in> set RPS" by blast
    show ?thesis
    proof (cases "resolve (choice g0) (take 1 m)")
      case (Inl e)
      with assms show ?thesis
        unfolding rb m(1) process_message_move [OF r0 m(2)] by simp
    next
      case (Inr r)
      obtain rfx a b where r: "r = (rfx, a, b)" by (cases r)
      from assms show ?thesis
        unfolding rb m(1) process_message_move [OF r0 m(2)] Inr r f
        by (auto simp add: Let_def split: option.splits)
    qed
  qed
qed

lemma round_loop_halted:
  "round_loop td g ps = Halted msg G \<Longrightarrow>
     snd (display_score (your_score G) (opp_score G) (round_number g) 3) = Some msg"
proof (induction ps arbitrary: g)
  case Nil
  then show ?case by (simp split: if_splits)
next
  case (Cons p ps)
  show ?case
  proof (cases "acknowledged g \<and> resolved g")
    case True
    with Cons.prems show ?thesis by simp
  next
    case False
    show ?thesis
    proof (cases "round_body td g p")
      case (Next g1)
      have rn: "round_number g1 = round_number g"
        using round_body_frame [of td g p] Next by simp
      from Cons.prems False Next have "round_loop td g1 ps = Halted msg G" by auto
      from Cons.IH [OF this] show ?thesis by (simp add: rn)
    next
      case (Waiting x)
      then show ?thesis by (simp add: round_body_not_waiting)
    next
      case (Halted m' x)
      with Cons.prems False have "round_body td g p = Halted msg G" by auto
      then show ?thesis by (rule round_body_halted)
    next
      case (Raised e x)
      with Cons.prems False show ?thesis by auto
    qed
  qed
qed

lemma round_loop_next:
  "resolved g \<longrightarrow> snd (display_score (your_score g) (opp_score g) (round_number g) 3) = None \<Longrightarrow>
   round_loop td g ps = Next G \<Longrightarrow>
     acknowledged G \<and> resolved G \<and> round_number G = round_number g
     \<and> snd (display_score (your_score G) (opp_score G) (round_number g) 3) = None"
proof (induction ps arbitrary: g)
  case Nil
  then show ?case by (simp split: if_splits)
next
  case (Cons p ps)
  show ?case
  proof (cases "acknowledged g \<and> resolved g")
    case True
    with Cons.prems show ?thesis by simp
  next
    case False
    show ?thesis
    proof (cases "round_body td g p")
      case (Next g1)
      have rn: "round_number g1 = round_number g"
        using round_body_frame [of td g p] Next by simp
      from Cons.prems(2) False Next have lp: "round_loop td g1 ps = Next G" by auto
      have inv: "resolved g1 \<longrightarrow>
          snd (display_score (your_score g1) (opp_score g1) (round_number g1) 3) = None"
      proof (cases "resolved g")
        case True
        from round_body_resolved [OF True, of td p] Next Cons.prems(1) True rn
        show ?thesis by auto
      next
        case nr: False
        show ?thesis
        proof
          assume r1: "resolved g1"
          then have "resolved (state_of (round_body td g p))" by (simp add: Next)
          from round_body_resolves [OF nr this] obtain G' where
            e: "round_body td g p =
              (case snd (display_score (your_score G') (opp_score G') (round_number g) 3) of
                 Some msg \<Rightarrow> Halted msg G' | None \<Rightarrow> Next G')" by blast
          with Next show "snd (display_score (your_score g1) (opp_score g1) (round_number g1) 3) = None"
            by (auto simp add: rn split: option.splits)
        qed
      qed
      from Cons.IH [OF inv lp] show ?thesis by (simp add: rn)
    next
      case (Waiting x)
      then show ?thesis by (simp add: round_body_not_waiting)
    next
      case (Halted m' x)
      with Cons.prems False show ?thesis by auto
    next
      case (Raised e x)
      with Cons.prems False show ?thesis by auto
    qed
  qed
qed

lemma round_loop_progress:
  assumes "choice g \<in> set RPS" and "py_str (round_number g) = [d]"
    and "resolved g \<or> (\<exists>p \<in> set ps. \<exists>m \<in> set RPS. received p = Some (m @ [d]))"
    and "acknowledged g \<or> (\<exists>p \<in> set ps. received p = Some [CHR ''X'', d])"
  shows "(\<exists>G. round_loop td g ps = Next G) \<or> (\<exists>msg G. round_loop td g ps = Halted msg G)"
  using assms
proof (induction ps arbitrary: g)
  case Nil
  then show ?case by simp
next
  case (Cons p ps)
  show ?case
  proof (cases "acknowledged g \<and> resolved g")
    case True
    then show ?thesis by simp
  next
    case False
    show ?thesis
    proof (cases "round_body td g p")
      case (Next g1)
      have fr: "round_number g1 = round_number g" "choice g1 = choice g"
        "acknowledged g \<longrightarrow> acknowledged g1" "resolved g \<longrightarrow> resolved g1"
        using round_body_frame [of td g p] Next by simp_all
      have r: "resolved g1 \<or> (\<exists>q \<in> set ps. \<exists>m \<in> set RPS. received q = Some (m @ [d]))"
      proof (cases "resolved g \<or> (\<exists>q \<in> set ps. \<exists>m \<in> set RPS. received q = Some (m @ [d]))")
        case True
        with fr(4) show ?thesis by blast
      next
        case nf: False
        with Cons.prems(3) obtain m where m: "m \<in> set RPS" "received p = Some (m @ [d])"
          by auto
        from nf have nr: "\<not> resolved g" by blast
        from round_body_move [OF nr Cons.prems(1) m(1) Cons.prems(2) m(2), of td] Next
        show ?thesis by auto
      qed
      have a: "acknowledged g1 \<or> (\<exists>q \<in> set ps. received q = Some [CHR ''X'', d])"
      proof (cases "acknowledged g \<or> (\<exists>q \<in> set ps. received q = Some [CHR ''X'', d])")
        case True
        with fr(3) show ?thesis by blast
      next
        case nf: False
        with Cons.prems(4) have "received p = Some [CHR ''X'', d]" by auto
        from round_body_hears_ack [OF Cons.prems(2) this Next] show ?thesis by simp
      qed
      from Cons.IH [of g1] Cons.prems(1,2) fr r a
      have "(\<exists>G. round_loop td g1 ps = Next G) \<or> (\<exists>msg G. round_loop td g1 ps = Halted msg G)"
        by simp
      with False Next show ?thesis by auto
    next
      case (Waiting x)
      then show ?thesis by (simp add: round_body_not_waiting)
    next
      case (Halted m' x)
      with False show ?thesis by auto
    next
      case (Raised e x)
      with round_body_safe [OF Cons.prems(1), of td p e x] show ?thesis by simp
    qed
  qed
qed

lemma round_loop_round3_halts:
  assumes "choice g \<in> set RPS" and "round_number g = 3" and "\<not> resolved g"
    and "\<exists>p \<in> set ps. \<exists>m \<in> set RPS. received p = Some (m @ ''3'')"
  shows "\<exists>msg G. round_loop td g ps = Halted msg G"
  using assms
proof (induction ps arbitrary: g)
  case Nil
  then show ?case by simp
next
  case (Cons p ps)
  have d: "py_str (round_number g) = ''3''"
    by (simp add: Cons.prems(2) py_str_def dec_digits.simps digit_char_def)
  have nd: "\<not> (acknowledged g \<and> resolved g)" using Cons.prems(3) by simp
  show ?case
  proof (cases "round_body td g p")
    case (Next g1)
    have fr: "round_number g1 = 3" "choice g1 \<in> set RPS"
      using round_body_frame [of td g p] Next Cons.prems(1,2) by simp_all
    have nr1: "\<not> resolved g1"
    proof
      assume "resolved g1"
      then have "resolved (state_of (round_body td g p))" by (simp add: Next)
      from round_body_resolves [OF Cons.prems(3) this] obtain G' where
        "round_body td g p =
              (case snd (display_score (your_score G') (opp_score G') (round_number g) 3) of
                 Some msg \<Rightarrow> Halted msg G' | None \<Rightarrow> Next G')" by blast
      with Next show False by (simp add: Cons.prems(2) display_score_round3)
    qed
    have "\<exists>q \<in> set ps. \<exists>m \<in> set RPS. received q = Some (m @ ''3'')"
    proof (rule ccontr)
      assume "\<not> ?thesis"
      with Cons.prems(4) obtain m where m: "m \<in> set RPS" "received p = Some (m @ ''3'')" by auto
      from round_body_move [OF Cons.prems(3) Cons.prems(1) m(1) d m(2), of td] Next nr1
      show False by auto
    qed
    from Cons.IH [OF fr(2) fr(1) nr1 this] nd Next show ?thesis by auto
  next
    case (Waiting x)
    then show ?thesis by (simp add: round_body_not_waiting)
  next
    case (Halted m' x)
    with nd show ?thesis by auto
  next
    case (Raised e x)
    with round_body_safe [OF Cons.prems(1), of td p e x] show ?thesis by simp
  qed
qed

lemma py_str_2: "py_str 2 = ''2''" and py_str_3: "py_str 3 = ''3''"
  by (simp_all add: py_str_def dec_digits.simps digit_char_def)

lemma play_round_round2:
  assumes rn: "round_number g = 2" and cp: "choose_play (presses env) = (Some c, fx)"
    and c: "c \<in> set RPS"
    and mv: "\<exists>p \<in> set (polls env). \<exists>m \<in> set RPS. received p = Some (m @ ''2'')"
    and ak: "\<exists>p \<in> set (polls env). received p = Some ''X2''"
  shows "(\<exists>G. play_round td g env = Halted ''You win!!'' G \<and> your_score G = 2)
     \<or> (\<exists>G. play_round td g env = Halted ''You Lose!'' G \<and> your_score G \<noteq> 2 \<and> opp_score G = 2)
     \<or> (\<exists>g3. play_round td g env = Next g3 \<and> round_number g3 = 3
           \<and> your_score g3 \<noteq> 2 \<and> opp_score g3 \<noteq> 2
           \<and> (\<exists>a b. (a, b) \<in> {(0, 0), (1, 0), (0, 1)}
                 \<and> your_score g3 = your_score g + a \<and> opp_score g3 = opp_score g + b)
           \<and> main_loop td g (env # envs) = main_loop td g3 envs)"
proof -
  from play_round_enter [OF cp, of g td] obtain G0 where
    f: "\<not> acknowledged G0" "\<not> resolved G0" "choice G0 = c" "round_number G0 = 2"
       "your_score G0 = your_score g" "opp_score G0 = opp_score g"
    and pr: "\<And>ps. play_round td g (env\<lparr>polls := ps\<rparr>) =
            (case round_loop td G0 ps of
               Next g2 \<Rightarrow> Next (g2\<lparr>round_number := round_number g2 + 1\<rparr>)
             | other \<Rightarrow> other)"
    unfolding rn by blast
  have pe: "play_round td g env =
            (case round_loop td G0 (polls env) of
               Next g2 \<Rightarrow> Next (g2\<lparr>round_number := round_number g2 + 1\<rparr>)
             | other \<Rightarrow> other)"
    using pr [of "polls env"] by simp
  have d: "py_str (round_number G0) = [CHR ''2'']" by (simp add: f(4) py_str_2)
  have c0: "choice G0 \<in> set RPS" using c f(3) by simp
  from round_loop_scores [of td G0 "polls env"] obtain a b where
    ab: "(a, b) \<in> {(0, 0), (1, 0), (0, 1)}"
        "your_score (state_of (round_loop td G0 (polls env))) = your_score g + a"
        "opp_score (state_of (round_loop td G0 (polls env))) = opp_score g + b"
    unfolding f(5,6) by blast
  from round_loop_progress [OF c0 d, of "polls env" td] mv ak
  consider (nx) G where "round_loop td G0 (polls env) = Next G"
    | (ht) msg G where "round_loop td G0 (polls env) = Halted msg G"
    by auto
  then show ?thesis
  proof cases
    case nx
    have inv: "resolved G0 \<longrightarrow>
        snd (display_score (your_score G0) (opp_score G0) (round_number G0) 3) = None"
      using f(2) by simp
    from round_loop_next [OF inv nx] have
      k: "round_number G = 2"
         "snd (display_score (your_score G) (opp_score G) 2 3) = None"
      by (simp_all add: f(4))
    from k(2) have s: "your_score G \<noteq> 2 \<and> opp_score G \<noteq> 2"
      by (simp add: display_score_round2 split: if_splits)
    have p: "play_round td g env = Next (G\<lparr>round_number := round_number G + 1\<rparr>)"
      unfolding pe nx by simp
    have "main_loop td g (env # envs) = main_loop td (G\<lparr>round_number := round_number G + 1\<rparr>) envs"
      by (simp add: p)
    with p s k(1) ab nx show ?thesis
      by (intro disjI2, intro exI [of _ "G\<lparr>round_number := round_number G + 1\<rparr>"]) auto
  next
    case ht
    from round_loop_halted [OF ht] have
      "snd (display_score (your_score G) (opp_score G) 2 3) = Some msg" by (simp add: f(4))
    then have m: "(your_score G = 2 \<and> msg = ''You win!!'')
        \<or> (your_score G \<noteq> 2 \<and> opp_score G = 2 \<and> msg = ''You Lose!'')"
      unfolding display_score_round2 by (auto split: if_splits)
    have p: "play_round td g env = Halted msg G" unfolding pe ht by simp
    from m p show ?thesis by auto
  qed
qed

lemma play_round_round3_halts:
  assumes rn: "round_number g = 3" and cp: "choose_play (presses env) = (Some c, fx)"
    and c: "c \<in> set RPS"
    and mv: "\<exists>p \<in> set (polls env). \<exists>m \<in> set RPS. received p = Some (m @ ''3'')"
  shows "\<exists>G. play_round td g env =
      Halted (if opp_score G < your_score G then ''You win!!''
              else if your_score G < opp_score G then ''You Lose!''
              else ''You drew!'') G"
proof -
  from play_round_enter [OF cp, of g td] obtain G0 where
    f: "\<not> resolved G0" "choice G0 = c" "round_number G0 = 3"
    and pr: "\<And>ps. play_round td g (env\<lparr>polls := ps\<rparr>) =
            (case round_loop td G0 ps of
               Next g2 \<Rightarrow> Next (g2\<lparr>round_number := round_number g2 + 1\<rparr>)
             | other \<Rightarrow> other)"
    unfolding rn by blast
  have pe: "play_round td g env =
            (case round_loop td G0 (polls env) of
               Next g2 \<Rightarrow> Next (g2\<lparr>round_number := round_number g2 + 1\<rparr>)
             | other \<Rightarrow> other)"
    using pr [of "polls env"] by simp
  have c0: "choice G0 \<in> set RPS" using c f(2) by simp
  from round_loop_round3_halts [OF c0 f(3) f(1) mv, of td] obtain msg G where
    ht: "round_loop td G0 (polls env) = Halted msg G" by blast
  from round_loop_halted [OF ht] have
    "msg = (if opp_score G < your_score G then ''You win!!''
              else if your_score G < opp_score G then ''You Lose!''
              else ''You drew!'')"
    by (simp add: f(3) display_score_round3)
  moreover have "play_round td g env = Halted msg G" unfolding pe ht by simp
  ultimately show ?thesis by blast
qed

lemma main_unfold:
  assumes "fst (choose_opponent ob) = Some i"
  shows "\<exists>addr. create_address MYID i = Inr addr
     \<and> main td ob envs =
         main_loop td (start (snd (choose_opponent ob)
                        @ [RadioConfig 6 (from_bytes_little addr), RadioOn])) envs"
proof -
  obtain fx where co: "choose_opponent ob = (Some i, fx)"
    using assms by (cases "choose_opponent ob") simp
  from choose_opponent_valid [OF co] have v: "valid_id i" .
  from valid_id_value [OF MYID_valid] obtain a where a: "py_int16 MYID = Inr a" by blast
  from valid_id_value [OF v] obtain b where b: "py_int16 i = Inr b" by blast
  have ca: "create_address MYID i = Inr (if a > b then i @ MYID else MYID @ i)"
    by (simp add: create_address_def a b)
  show ?thesis
    by (simp add: main_def co ca)
qed

text \<open>
  C7. Take the pass of the inner loop that resolves the round (\<open>resolved\<close> false before,
  true after) and let \<open>G\<close> be the state after it. In round 2 the device restarts after
  scrolling \<open>You win!!\<close> when the own score is 2, after \<open>You Lose!\<close> when the opponent's is 2,
  and otherwise the pass ends normally and the loop goes on. In round 3 the device always
  restarts, after \<open>You win!!\<close>, \<open>You Lose!\<close> or \<open>You drew!\<close> as the own score is above, below
  or equal to the opponent's.

  For the whole round, with a move chosen from \<open>RPS\<close>: when round 2 hears a move frame and
  an acknowledgement frame of round 2, it ends the match with \<open>You win!!\<close> and an own score
  of 2, or with \<open>You Lose!\<close> and an opponent's score of 2, or it completes with neither
  score 2, the scores of the round before plus the points of one \<open>resolve\<close>, and hands over
  to round 3, which \<open>main\<close> plays next. When round 3 hears a move frame of round 3 it ends
  the match, with the text by comparison of the scores. A round that completes is never
  round 3, and after it \<open>main\<close> plays the round with the next number.

  \<open>main\<close> itself, once the opponent is chosen, derives the address without raising and runs
  the rounds from round 1 at 0 to 0. In every run of \<open>main\<close> the round number stays between
  1 and 3 and the scores are not negative and together at most the round number, so that
  in round 2 at most one of them is 2.
\<close>

theorem best_of_three_termination:
  "(\<not> resolved g \<and> resolved (state_of (round_body td g p)) \<longrightarrow>
      (\<exists>G. G = state_of (round_body td g p)
         \<and> (round_number g = 2 \<longrightarrow>
              round_body td g p =
                (if your_score G = 2 then Halted ''You win!!'' G
                 else if opp_score G = 2 then Halted ''You Lose!'' G
                 else Next G))
         \<and> (round_number g = 3 \<longrightarrow>
              round_body td g p =
                Halted (if opp_score G < your_score G then ''You win!!''
                        else if your_score G < opp_score G then ''You Lose!''
                        else ''You drew!'') G)))
   \<and> (play_round td g0 env = Next g3 \<longrightarrow>
        round_number g0 \<noteq> 3 \<and> round_number g3 = round_number g0 + 1
        \<and> main_loop td g0 (env # envs) = main_loop td g3 envs)
   \<and> 1 \<le> round_number (state_of (main td ob es))
   \<and> round_number (state_of (main td ob es)) \<le> 3
   \<and> 0 \<le> your_score (state_of (main td ob es))
   \<and> 0 \<le> opp_score (state_of (main td ob es))
   \<and> your_score (state_of (main td ob es)) + opp_score (state_of (main td ob es))
       \<le> round_number (state_of (main td ob es))
   \<and> (round_number g0 = 2 \<and> choose_play (presses env) = (Some c, fx) \<and> c \<in> set RPS
        \<and> (\<exists>q \<in> set (polls env). \<exists>m \<in> set RPS. received q = Some (m @ ''2''))
        \<and> (\<exists>q \<in> set (polls env). received q = Some ''X2'')
      \<longrightarrow> (\<exists>G. play_round td g0 env = Halted ''You win!!'' G \<and> your_score G = 2)
         \<or> (\<exists>G. play_round td g0 env = Halted ''You Lose!'' G
               \<and> your_score G \<noteq> 2 \<and> opp_score G = 2)
         \<or> (\<exists>g3. play_round td g0 env = Next g3 \<and> round_number g3 = 3
               \<and> your_score g3 \<noteq> 2 \<and> opp_score g3 \<noteq> 2
               \<and> (\<exists>a b. (a, b) \<in> {(0, 0), (1, 0), (0, 1)}
                     \<and> your_score g3 = your_score g0 + a \<and> opp_score g3 = opp_score g0 + b)
               \<and> main_loop td g0 (env # envs) = main_loop td g3 envs))
   \<and> (round_number g0 = 3 \<and> choose_play (presses env) = (Some c, fx) \<and> c \<in> set RPS
        \<and> (\<exists>q \<in> set (polls env). \<exists>m \<in> set RPS. received q = Some (m @ ''3''))
      \<longrightarrow> (\<exists>G. play_round td g0 env =
                 Halted (if opp_score G < your_score G then ''You win!!''
                         else if your_score G < opp_score G then ''You Lose!''
                         else ''You drew!'') G))
   \<and> (fst (choose_opponent ob) = Some i
      \<longrightarrow> (\<exists>addr. create_address MYID i = Inr addr
            \<and> main td ob es =
                main_loop td (start (snd (choose_opponent ob)
                               @ [RadioConfig 6 (from_bytes_little addr), RadioOn])) es))"
proof -
  have rs: "\<exists>G. G = state_of (round_body td g p)
         \<and> (round_number g = 2 \<longrightarrow>
              round_body td g p =
                (if your_score G = 2 then Halted ''You win!!'' G
                 else if opp_score G = 2 then Halted ''You Lose!'' G
                 else Next G))
         \<and> (round_number g = 3 \<longrightarrow>
              round_body td g p =
                Halted (if opp_score G < your_score G then ''You win!!''
                        else if your_score G < opp_score G then ''You Lose!''
                        else ''You drew!'') G)"
    if as: "\<not> resolved g \<and> resolved (state_of (round_body td g p))"
  proof -
    from as have a1: "\<not> resolved g" and a2: "resolved (state_of (round_body td g p))"
      by blast+
    from round_body_resolves [OF a1 a2] obtain G where
      e: "round_body td g p =
           (case snd (display_score (your_score G) (opp_score G) (round_number g) 3) of
              Some msg \<Rightarrow> Halted msg G | None \<Rightarrow> Next G)" by blast
    have G: "G = state_of (round_body td g p)"
      by (subst e) (simp split: option.splits)
    have r2: "round_body td g p =
                (if your_score G = 2 then Halted ''You win!!'' G
                 else if opp_score G = 2 then Halted ''You Lose!'' G
                 else Next G)" if "round_number g = 2"
      by (subst e) (simp add: that display_score_round2)
    have r3: "round_body td g p =
                Halted (if opp_score G < your_score G then ''You win!!''
                        else if your_score G < opp_score G then ''You Lose!''
                        else ''You drew!'') G" if "round_number g = 3"
      by (subst e) (simp add: that display_score_round3)
    from G r2 r3 show ?thesis by blast
  qed
  have nx: "round_number g0 \<noteq> 3 \<and> round_number g3 = round_number g0 + 1
            \<and> main_loop td g0 (env # envs) = main_loop td g3 envs"
    if n: "play_round td g0 env = Next g3"
  proof (intro conjI)
    show "round_number g0 \<noteq> 3" using play_round_round3 [of g0 td env g3] n by blast
    from n show "round_number g3 = round_number g0 + 1" by (rule play_round_next)
    from n show "main_loop td g0 (env # envs) = main_loop td g3 envs" by simp
  qed
  from main_bounds [of td ob es] have
    b1: "1 \<le> round_number (state_of (main td ob es))"
    and b2: "round_number (state_of (main td ob es)) \<le> 3"
    and b3: "0 \<le> your_score (state_of (main td ob es))"
    and b4: "0 \<le> opp_score (state_of (main td ob es))"
    and b5: "your_score (state_of (main td ob es)) + opp_score (state_of (main td ob es))
         \<le> round_number (state_of (main td ob es))"
    by blast+
  have h2: "(\<exists>G. play_round td g0 env = Halted ''You win!!'' G \<and> your_score G = 2)
         \<or> (\<exists>G. play_round td g0 env = Halted ''You Lose!'' G
               \<and> your_score G \<noteq> 2 \<and> opp_score G = 2)
         \<or> (\<exists>g3. play_round td g0 env = Next g3 \<and> round_number g3 = 3
               \<and> your_score g3 \<noteq> 2 \<and> opp_score g3 \<noteq> 2
               \<and> (\<exists>a b. (a, b) \<in> {(0, 0), (1, 0), (0, 1)}
                     \<and> your_score g3 = your_score g0 + a \<and> opp_score g3 = opp_score g0 + b)
               \<and> main_loop td g0 (env # envs) = main_loop td g3 envs)"
    if as: "round_number g0 = 2 \<and> choose_play (presses env) = (Some c, fx) \<and> c \<in> set RPS
        \<and> (\<exists>q \<in> set (polls env). \<exists>m \<in> set RPS. received q = Some (m @ ''2''))
        \<and> (\<exists>q \<in> set (polls env). received q = Some ''X2'')"
  proof -
    from as have rn: "round_number g0 = 2" and cp: "choose_play (presses env) = (Some c, fx)"
      and c: "c \<in> set RPS"
      and mv: "\<exists>q \<in> set (polls env). \<exists>m \<in> set RPS. received q = Some (m @ ''2'')"
      and ak: "\<exists>q \<in> set (polls env). received q = Some ''X2''"
      by blast+
    show ?thesis by (rule play_round_round2 [OF rn cp c mv ak])
  qed
  have h3: "\<exists>G. play_round td g0 env =
                 Halted (if opp_score G < your_score G then ''You win!!''
                         else if your_score G < opp_score G then ''You Lose!''
                         else ''You drew!'') G"
    if as: "round_number g0 = 3 \<and> choose_play (presses env) = (Some c, fx) \<and> c \<in> set RPS
        \<and> (\<exists>q \<in> set (polls env). \<exists>m \<in> set RPS. received q = Some (m @ ''3''))"
  proof -
    from as have rn: "round_number g0 = 3" and cp: "choose_play (presses env) = (Some c, fx)"
      and c: "c \<in> set RPS"
      and mv: "\<exists>q \<in> set (polls env). \<exists>m \<in> set RPS. received q = Some (m @ ''3'')"
      by blast+
    show ?thesis by (rule play_round_round3_halts [OF rn cp c mv])
  qed
  have mn: "\<exists>addr. create_address MYID i = Inr addr
            \<and> main td ob es =
                main_loop td (start (snd (choose_opponent ob)
                               @ [RadioConfig 6 (from_bytes_little addr), RadioOn])) es"
    if "fst (choose_opponent ob) = Some i"
    using that by (rule main_unfold)
  show ?thesis
    by (rule conjI [OF impI [OF rs] conjI [OF impI [OF nx] conjI [OF b1 conjI [OF b2
          conjI [OF b3 conjI [OF b4 conjI [OF b5 conjI [OF impI [OF h2]
          conjI [OF impI [OF h3] impI [OF mn]]]]]]]]]])
qed

theorem best_of_three_termination_witness:
  "\<not> resolved (in_round 2 ''R'' 1 0)
   \<and> resolved (state_of (round_body plain_diff (in_round 2 ''R'' 1 0) (heard (Some ''S2'') 100)))
   \<and> round_number (in_round 2 ''R'' 1 0) = 2
   \<and> (\<exists>G. round_body plain_diff (in_round 2 ''R'' 1 0) (heard (Some ''S2'') 100)
             = Halted ''You win!!'' G \<and> your_score G = 2)
   \<and> (\<exists>G. round_body plain_diff (in_round 2 ''R'' 1 0) (heard (Some ''P2'') 100) = Next G
          \<and> your_score G = 1 \<and> opp_score G = 1)
   \<and> round_number (in_round 3 ''S'' 1 0) = 3
   \<and> (\<exists>G. round_body plain_diff (in_round 3 ''S'' 1 0) (heard (Some ''R3'') 100)
             = Halted ''You drew!'' G \<and> your_score G = 1 \<and> opp_score G = 1)
   \<and> (\<exists>g3. play_round plain_diff (start [])
              (one_round [(True, True)] [heard (Some ''S1'') 100, heard (Some ''X1'') 200]) = Next g3
          \<and> round_number g3 = 2
          \<and> main_loop plain_diff (start [])
               [one_round [(True, True)] [heard (Some ''S1'') 100, heard (Some ''X1'') 200]]
             = Waiting g3)
   \<and> fst (choose_play [(True, False), (True, True)]) = Some ''P''
   \<and> (\<exists>g3. play_round plain_diff (in_round 2 [] 1 0)
              (one_round [(True, False), (True, True)]
                 [heard (Some ''P2'') 100, heard (Some ''X2'') 200]) = Next g3
          \<and> round_number g3 = 3 \<and> your_score g3 = 1 \<and> opp_score g3 = 0)
   \<and> (\<exists>G. play_round plain_diff (in_round 2 [] 1 0)
              (one_round [(True, False), (True, True)]
                 [heard (Some ''R2'') 100, heard (Some ''X2'') 200]) = Halted ''You win!!'' G
          \<and> your_score G = 2)
   \<and> fst (choose_play [(True, False), (True, False), (True, True)]) = Some ''S''
   \<and> (\<exists>G. play_round plain_diff (in_round 3 [] 1 0)
              (one_round [(True, False), (True, False), (True, True)] [heard (Some ''R3'') 100])
             = Halted ''You drew!'' G \<and> your_score G = 1 \<and> opp_score G = 1)
   \<and> fst (choose_opponent [(False, True), (True, False), (True, False), (True, False), (True, True)])
       = Some ''04''
   \<and> create_address MYID ''04'' = Inr ''042f''
   \<and> (\<exists>G. main plain_diff [(False, True), (True, False), (True, False), (True, False), (True, True)]
            [one_round [(True, True)] [heard (Some ''S1'') 100, heard (Some ''X1'') 200],
             one_round [(True, False), (True, True)]
               [heard (Some ''P2'') 100, heard (Some ''X2'') 200],
             one_round [(True, False), (True, False), (True, True)] [heard (Some ''R3'') 100]]
          = Halted ''You drew!'' G
        \<and> round_number G = 3 \<and> your_score G = 1 \<and> opp_score G = 1)"
proof -
  let ?g2 = "in_round 2 ''R'' 1 0"
  let ?g3 = "in_round 3 ''S'' 1 0"
  let ?env = "one_round [(True, True)] [heard (Some ''S1'') 100, heard (Some ''X1'') 200]"
  let ?e2 = "one_round [(True, False), (True, True)] [heard (Some ''P2'') 100, heard (Some ''X2'') 200]"
  let ?e2w = "one_round [(True, False), (True, True)] [heard (Some ''R2'') 100, heard (Some ''X2'') 200]"
  let ?e3 = "one_round [(True, False), (True, False), (True, True)] [heard (Some ''R3'') 100]"
  let ?ob = "[(False, True), (True, False), (True, False), (True, False), (True, True)]"
  have n2: "\<not> resolved ?g2" and n3: "\<not> resolved ?g3" by (simp_all add: in_round_def)
  have r2: "round_number ?g2 = 2" and r3: "round_number ?g3 = 3" by (simp_all add: in_round_def)
  have a: "resolved (state_of (round_body plain_diff ?g2 (heard (Some ''S2'') 100)))"
    and b: "resolved (state_of (round_body plain_diff ?g2 (heard (Some ''P2'') 100)))"
    and c: "resolved (state_of (round_body plain_diff ?g3 (heard (Some ''R3'') 100)))"
    by (simp_all add: run_unfold)
  have sa: "your_score (state_of (round_body plain_diff ?g2 (heard (Some ''S2'') 100))) = 2"
    and sb: "your_score (state_of (round_body plain_diff ?g2 (heard (Some ''P2'') 100))) = 1"
            "opp_score (state_of (round_body plain_diff ?g2 (heard (Some ''P2'') 100))) = 1"
    and sc: "your_score (state_of (round_body plain_diff ?g3 (heard (Some ''R3'') 100))) = 1"
            "opp_score (state_of (round_body plain_diff ?g3 (heard (Some ''R3'') 100))) = 1"
    by (simp_all add: run_unfold)
  obtain g3 where pr: "play_round plain_diff (start []) ?env = Next g3"
    by (simp add: play_round_def one_round_def choose_play_def start_def run_unfold)
  note T = best_of_three_termination [where td = plain_diff and ?g0.0 = "start []" and env = ?env
      and ?g3.0 = g3 and envs = "[]"]
  from T [THEN conjunct1, THEN mp, OF conjI [OF n2 a]] r2 sa
  have A: "\<exists>G. round_body plain_diff ?g2 (heard (Some ''S2'') 100) = Halted ''You win!!'' G
            \<and> your_score G = 2"
    by auto
  from T [THEN conjunct1, THEN mp, OF conjI [OF n2 b]] r2 sb
  have B: "\<exists>G. round_body plain_diff ?g2 (heard (Some ''P2'') 100) = Next G
            \<and> your_score G = 1 \<and> opp_score G = 1"
    by auto
  from T [THEN conjunct1, THEN mp, OF conjI [OF n3 c]] r3 sc
  have C: "\<exists>G. round_body plain_diff ?g3 (heard (Some ''R3'') 100) = Halted ''You drew!'' G
            \<and> your_score G = 1 \<and> opp_score G = 1"
    by auto
  from T [THEN conjunct2, THEN conjunct1, THEN mp, OF pr]
  have D: "round_number g3 = 2 \<and> main_loop plain_diff (start []) [?env] = Waiting g3"
    by (simp add: start_def)
  have D': "\<exists>g3. play_round plain_diff (start []) ?env = Next g3 \<and> round_number g3 = 2
      \<and> main_loop plain_diff (start []) [?env] = Waiting g3"
    using pr D by blast
  obtain fp where cpP: "choose_play [(True, False), (True, True)] = (Some ''P'', fp)"
    by (simp add: choose_play_def Let_def)
  have eP: "fst (choose_play [(True, False), (True, True)]) = Some ''P''" by (simp add: cpP)
  have inP: "''P'' \<in> set RPS" by (simp add: RPS_def)
  have h2: "round_number (in_round 2 [] 1 0) = 2
      \<and> choose_play (presses ?e2) = (Some ''P'', fp) \<and> ''P'' \<in> set RPS
      \<and> (\<exists>q \<in> set (polls ?e2). \<exists>m \<in> set RPS. received q = Some (m @ ''2''))
      \<and> (\<exists>q \<in> set (polls ?e2). received q = Some ''X2'')"
    by (simp add: in_round_def one_round_def cpP RPS_def heard_def)
  have v2: "your_score (state_of (play_round plain_diff (in_round 2 [] 1 0) ?e2)) = 1"
    "opp_score (state_of (play_round plain_diff (in_round 2 [] 1 0) ?e2)) = 0"
    by (simp_all add: play_round_def one_round_def choose_play_def run_unfold)
  from best_of_three_termination [where td = plain_diff and ?g0.0 = "in_round 2 [] 1 0"
      and env = ?e2 and c = "''P''" and fx = fp and envs = "[]",
      THEN conjunct2, THEN conjunct2, THEN conjunct2, THEN conjunct2, THEN conjunct2,
      THEN conjunct2, THEN conjunct2, THEN conjunct1, THEN mp, OF h2] v2
  have E: "\<exists>g3. play_round plain_diff (in_round 2 [] 1 0) ?e2 = Next g3
          \<and> round_number g3 = 3 \<and> your_score g3 = 1 \<and> opp_score g3 = 0"
    by auto
  have h2w: "round_number (in_round 2 [] 1 0) = 2
      \<and> choose_play (presses ?e2w) = (Some ''P'', fp) \<and> ''P'' \<in> set RPS
      \<and> (\<exists>q \<in> set (polls ?e2w). \<exists>m \<in> set RPS. received q = Some (m @ ''2''))
      \<and> (\<exists>q \<in> set (polls ?e2w). received q = Some ''X2'')"
    by (simp add: in_round_def one_round_def cpP RPS_def heard_def)
  have v2w: "your_score (state_of (play_round plain_diff (in_round 2 [] 1 0) ?e2w)) = 2"
    by (simp add: play_round_def one_round_def choose_play_def run_unfold)
  from best_of_three_termination [where td = plain_diff and ?g0.0 = "in_round 2 [] 1 0"
      and env = ?e2w and c = "''P''" and fx = fp and envs = "[]",
      THEN conjunct2, THEN conjunct2, THEN conjunct2, THEN conjunct2, THEN conjunct2,
      THEN conjunct2, THEN conjunct2, THEN conjunct1, THEN mp, OF h2w] v2w
  have F: "\<exists>G. play_round plain_diff (in_round 2 [] 1 0) ?e2w = Halted ''You win!!'' G
          \<and> your_score G = 2"
    by auto
  obtain fs where cpS: "choose_play [(True, False), (True, False), (True, True)] = (Some ''S'', fs)"
    by (simp add: choose_play_def Let_def)
  have eS: "fst (choose_play [(True, False), (True, False), (True, True)]) = Some ''S''"
    by (simp add: cpS)
  have h3: "round_number (in_round 3 [] 1 0) = 3
      \<and> choose_play (presses ?e3) = (Some ''S'', fs) \<and> ''S'' \<in> set RPS
      \<and> (\<exists>q \<in> set (polls ?e3). \<exists>m \<in> set RPS. received q = Some (m @ ''3''))"
    by (simp add: in_round_def one_round_def cpS RPS_def heard_def)
  have v3: "your_score (state_of (play_round plain_diff (in_round 3 [] 1 0) ?e3)) = 1"
    "opp_score (state_of (play_round plain_diff (in_round 3 [] 1 0) ?e3)) = 1"
    by (simp_all add: play_round_def one_round_def choose_play_def run_unfold)
  from best_of_three_termination [where td = plain_diff and ?g0.0 = "in_round 3 [] 1 0"
      and env = ?e3 and c = "''S''" and fx = fs,
      THEN conjunct2, THEN conjunct2, THEN conjunct2, THEN conjunct2, THEN conjunct2,
      THEN conjunct2, THEN conjunct2, THEN conjunct2, THEN conjunct1, THEN mp, OF h3] v3
  have H: "\<exists>G. play_round plain_diff (in_round 3 [] 1 0) ?e3 = Halted ''You drew!'' G
          \<and> your_score G = 1 \<and> opp_score G = 1"
    by auto
  have co: "choose_opponent ?ob =
      (Some ''04'', [Sleep 100, ShowStr ''0'', ShowStr ''X'', Sleep 100, ShowStr ''0'',
        Sleep 100, ShowStr ''1'', Sleep 100, ShowStr ''2'', Sleep 100, ShowStr ''3'',
        ShowStr ''X'', Clear])"
    by (simp add: choose_opponent_def Let_def hex_last_def)
  have i: "fst (choose_opponent ?ob) = Some ''04''" by (simp add: co)
  have ad: "create_address MYID ''04'' = Inr ''042f''"
    by (simp add: create_address_def MYID_def py_int16_def hex_digit_def py_index_def)
  from best_of_three_termination [where td = plain_diff and ob = ?ob and i = "''04''"
      and es = "[?env, ?e2, ?e3]",
      THEN conjunct2, THEN conjunct2, THEN conjunct2, THEN conjunct2, THEN conjunct2,
      THEN conjunct2, THEN conjunct2, THEN conjunct2, THEN conjunct2, THEN mp, OF i]
  obtain addr where
    m: "main plain_diff ?ob [?env, ?e2, ?e3] =
          main_loop plain_diff (start (snd (choose_opponent ?ob)
             @ [RadioConfig 6 (from_bytes_little addr), RadioOn])) [?env, ?e2, ?e3]"
    by blast
  have M: "\<exists>G. main plain_diff ?ob [?env, ?e2, ?e3] = Halted ''You drew!'' G
        \<and> round_number G = 3 \<and> your_score G = 1 \<and> opp_score G = 1"
    unfolding m
    by (simp add: start_def play_round_def one_round_def choose_play_def run_unfold)
  from n2 a r2 A B r3 C D' eP E F eS H i ad M show ?thesis by (intro conjI)
qed

end
